theory Spec2Isabelle
  imports Main "HOL-Library.Word"
begin

unbundle bit_operations_syntax

section \<open>The timestamp word\<close>

text \<open>
  The source file is \<^verbatim>\<open>src/transaction_impl/transaction_fantasticc_nolock.h\<close>.
  The timestamp word is the 64-bit bit-field struct
  \<^verbatim>\<open>{ lock_bit : 1; delta : 15; wts : 48 }\<close>. Each field is modelled with its own
  width, so that an assignment to a field truncates as the C assignment does, and
  equality of two records is equality of the 64-bit payload (the \<^verbatim>\<open>memcmp\<close> of
  \<^verbatim>\<open>timestamp_set_is_equal\<close>). The one-bit field is a \<^typ>\<open>bool\<close>.
  A \<^verbatim>\<open>txn_timestamp\<close> is a \<^verbatim>\<open>uint64\<close>. Where a field meets a \<^verbatim>\<open>txn_timestamp\<close>
  operand (\<^verbatim>\<open>r->wts != v1.wts\<close>, \<^verbatim>\<open>commit_ts - v1.wts\<close>) it is widened to 64 bits first.
\<close>

type_synonym txn_timestamp = "64 word"

record timestamp_set =
  lock_bit :: bool
  delta :: "15 word"
  wts :: "48 word"

definition timestamp_set_is_equal :: "timestamp_set \<Rightarrow> timestamp_set \<Rightarrow> bool" where
  "timestamp_set_is_equal s1 s2 = (s1 = s2)"

text \<open>
  \<^verbatim>\<open>timestamp_set_get_rts\<close> returns \<^verbatim>\<open>ts->wts + ts->delta\<close>. Both operands are bit-fields:
  \<^verbatim>\<open>delta\<close> is converted to the type of the 48-bit field \<^verbatim>\<open>wts\<close>, the sum is formed in
  that type, so it wraps around at \<open>2^48\<close>, and the result is widened to the
  \<^verbatim>\<open>txn_timestamp\<close> that is returned. This is how gcc types a bit-field wider than
  \<^verbatim>\<open>int\<close>.
\<close>

definition timestamp_set_get_rts :: "timestamp_set \<Rightarrow> txn_timestamp" where
  "timestamp_set_get_rts ts = ucast (timestamp_set.wts ts + ucast (delta ts))"

text \<open>
  Lines 465 to 468 of \<^verbatim>\<open>transactional_splinterdb_commit\<close>: the timestamp word
  proposed by read validation when the read timestamp of the snapshot \<open>v1\<close> has
  to be extended to \<open>commit_ts\<close>. The lock bit is copied from \<open>v1\<close>.
\<close>

definition rts_extension :: "txn_timestamp \<Rightarrow> timestamp_set \<Rightarrow> timestamp_set" where
  "rts_extension commit_ts v1 =
     (let d = commit_ts - ucast (timestamp_set.wts v1);
          shift = d - (d AND 0x7fff)
      in v1\<lparr>timestamp_set.wts := timestamp_set.wts v1 + ucast shift,
            delta := ucast (d - shift)\<rparr>)"

text \<open>Lines 511 to 513: the word a committed write installs.\<close>

definition committed_word :: "txn_timestamp \<Rightarrow> timestamp_set \<Rightarrow> timestamp_set" where
  "committed_word commit_ts v1 =
     v1\<lparr>timestamp_set.wts := ucast commit_ts, delta := 0, lock_bit := False\<rparr>"

section \<open>Keys, messages and read/write entries\<close>

type_synonym bytes = "8 word list"

datatype message_type =
    MESSAGE_TYPE_INVALID
  | MESSAGE_TYPE_INSERT
  | MESSAGE_TYPE_UPDATE
  | MESSAGE_TYPE_DELETE

text \<open>
  Modelled from the spec: the \<^verbatim>\<open>message\<close> type and its accessors are declared in
  \<^verbatim>\<open>data_internal.h\<close>, which is not among the sources. A message is a tag and a value
  payload; an entry without a pending mutation holds the null message, modelled as
  \<open>None\<close> (the spec's "optional pending mutation", \<open>is_write \<longleftrightarrow> msg present\<close>).
  \<^verbatim>\<open>INSERT\<close> and \<^verbatim>\<open>DELETE\<close> are the definitive messages.
\<close>

record message =
  message_class :: message_type
  message_data :: bytes

definition message_is_definitive :: "message \<Rightarrow> bool" where
  "message_is_definitive m =
     (message_class m = MESSAGE_TYPE_INSERT \<or> message_class m = MESSAGE_TYPE_DELETE)"

definition DELETE_MESSAGE :: message where
  "DELETE_MESSAGE = \<lparr>message_class = MESSAGE_TYPE_DELETE, message_data = []\<rparr>"

text \<open>
  \<^verbatim>\<open>struct rw_entry\<close>. The pointer \<^verbatim>\<open>tuple_ts\<close> into the timestamp cache is \<open>None\<close>
  when null; a slot of the cache is addressed by the bytes of the key it belongs to.
\<close>

record rw_entry =
  key :: bytes
  msg :: "message option"
  wts :: txn_timestamp
  rts :: txn_timestamp
  tuple_ts :: "bytes option"
  is_read :: bool
  need_to_keep_key :: bool
  need_to_decrease_refcount :: bool

record transaction =
  rw_entries :: "rw_entry list"

definition num_rw_entries :: "transaction \<Rightarrow> nat" where
  "num_rw_entries txn = length (rw_entries txn)"

section \<open>Collaborators, build flags and the shared state\<close>

text \<open>
  What one thread does that another thread, the key-value store or the clock can
  see: the calls into the key-value store, the sleeps, and the lock operations on
  timestamp words (by the slot they act on).
\<close>

datatype event =
    Splinterdb_insert bytes bytes
  | Splinterdb_update bytes bytes
  | Splinterdb_delete bytes
  | Splinterdb_lookup bytes
  | Platform_sleep_ns nat
  | Try_lock bytes bool
  | Unlock bytes

text \<open>
  The fatal outcomes of the C code: a failed \<^verbatim>\<open>platform_assert\<close>, a write past the
  end of a fixed-size buffer, and a dereference of a null \<^verbatim>\<open>tuple_ts\<close>.
\<close>

datatype error = Assertion_failed | Buffer_overflow | Null_pointer

text \<open>
  The constants, build flags and collaborators that the source takes from headers
  that are not among the sources (\<^verbatim>\<open>iceberg_table.h\<close>, \<^verbatim>\<open>experimental_mode.h\<close>,
  \<^verbatim>\<open>splinterdb/data.h\<close>, \<^verbatim>\<open>splinterdb_internal.h\<close>) are parameters:
  the sizes \<^verbatim>\<open>KEY_SIZE\<close> and \<^verbatim>\<open>RW_SET_SIZE_LIMIT\<close>, the three experimental modes, the
  key comparator and the merge function of the data config, and the key-value store,
  which answers a call with a status and (for a lookup) a value and may take the
  calls made so far into account.
\<close>

record txn_env =
  KEY_SIZE :: nat
  RW_SET_SIZE_LIMIT :: nat
  EXPERIMENTAL_MODE_SILO :: bool
  EXPERIMENTAL_MODE_KEEP_ALL_KEYS :: bool
  EXPERIMENTAL_MODE_BYPASS_SPLINTERDB :: bool
  key_compare :: "bytes \<Rightarrow> bytes \<Rightarrow> int"
  merge_tuples :: "bytes \<Rightarrow> message \<Rightarrow> message \<Rightarrow> message"
  splinterdb :: "event list \<Rightarrow> event \<Rightarrow> int \<times> bytes"

text \<open>
  The state shared between threads and the record of this thread's events.
  \<open>ts_mem\<close> is the storage of the timestamp words, \<open>refcount\<close> the directory of
  the timestamp cache (a key is in the cache when it has a reference count).
  \<open>sched\<close> is what the other threads do: before each atomic access of this thread to
  a timestamp word, the next element of \<open>sched\<close> (a list of stores to timestamp
  words) takes effect; when the schedule is used up the other threads are quiet.
\<close>

record world =
  ts_mem :: "bytes \<Rightarrow> timestamp_set"
  refcount :: "bytes \<Rightarrow> nat option"
  sched :: "(bytes \<times> timestamp_set) list list"
  trace :: "event list"

definition env_step :: "world \<Rightarrow> world" where
  "env_step w =
     (case sched w of
        [] \<Rightarrow> w
      | stores # rest \<Rightarrow>
          w\<lparr>ts_mem := foldl (\<lambda>m (k, v). m(k := v)) (ts_mem w) stores, sched := rest\<rparr>)"

text \<open>The atomic load of a timestamp word (\<^verbatim>\<open>v = *entry->tuple_ts\<close>).\<close>

definition load :: "bytes \<Rightarrow> world \<Rightarrow> timestamp_set \<times> world" where
  "load p w = (let w' = env_step w in (ts_mem w' p, w'))"

definition timestamp_set_compare_and_swap ::
  "bytes \<Rightarrow> timestamp_set \<Rightarrow> timestamp_set \<Rightarrow> world \<Rightarrow> bool \<times> world" where
  "timestamp_set_compare_and_swap p v1 v2 w =
     (let w' = env_step w
      in if ts_mem w' p = v1 then (True, w'\<lparr>ts_mem := (ts_mem w')(p := v2)\<rparr>)
         else (False, w'))"

definition emit :: "event \<Rightarrow> world \<Rightarrow> world" where
  "emit ev w = w\<lparr>trace := trace w @ [ev]\<rparr>"

definition platform_sleep_ns :: "nat \<Rightarrow> world \<Rightarrow> world" where
  "platform_sleep_ns n w = emit (Platform_sleep_ns n) w"

definition splinterdb_call :: "txn_env \<Rightarrow> event \<Rightarrow> world \<Rightarrow> (int \<times> bytes) \<times> world" where
  "splinterdb_call env ev w = (splinterdb env (trace w) ev, emit ev w)"

lemma sched_env_step: "sched (env_step w) = tl (sched w)"
  by (simp add: env_step_def split: list.splits)

lemma env_step_quiet: "sched w = [] \<Longrightarrow> env_step w = w"
  by (simp add: env_step_def)

lemma trace_env_step: "trace (env_step w) = trace w"
  by (simp add: env_step_def split: list.splits)

lemma refcount_env_step: "refcount (env_step w) = refcount w"
  by (simp add: env_step_def split: list.splits)

lemma load_quiet: "sched w = [] \<Longrightarrow> load p w = (ts_mem w p, w)"
  by (simp add: load_def Let_def env_step_quiet)

lemma load_env_step: "load p w = (ts_mem (env_step w) p, env_step w)"
  by (simp add: load_def Let_def)

lemma sched_load: "sched (snd (load p w)) = tl (sched w)"
  by (simp add: load_def Let_def sched_env_step)

lemma trace_load: "trace (snd (load p w)) = trace w"
  by (simp add: load_def Let_def trace_env_step)

lemma refcount_load: "refcount (snd (load p w)) = refcount w"
  by (simp add: load_def Let_def refcount_env_step)

lemma sched_cas: "sched (snd (timestamp_set_compare_and_swap p v1 v2 w)) = tl (sched w)"
  by (simp add: timestamp_set_compare_and_swap_def Let_def sched_env_step)

lemma trace_cas: "trace (snd (timestamp_set_compare_and_swap p v1 v2 w)) = trace w"
  by (simp add: timestamp_set_compare_and_swap_def Let_def trace_env_step)

lemma refcount_cas: "refcount (snd (timestamp_set_compare_and_swap p v1 v2 w)) = refcount w"
  by (simp add: timestamp_set_compare_and_swap_def Let_def refcount_env_step)


lemma cas_quiet:
  "sched w = [] \<Longrightarrow> ts_mem w p = v1 \<Longrightarrow>
     timestamp_set_compare_and_swap p v1 v2 w = (True, w\<lparr>ts_mem := (ts_mem w)(p := v2)\<rparr>)"
  by (simp add: timestamp_set_compare_and_swap_def Let_def env_step_quiet)

text \<open>
  A compare-and-swap that fails after a load has seen another thread's store in
  between, so the schedule was not yet used up before the load.
\<close>

lemma cas_after_load_fails:
  assumes "load p w = (v1, w1)"
    and "timestamp_set_compare_and_swap p v1 v2 w1 = (False, w2)"
  shows "length (sched w2) < length (sched w)"
proof (cases "sched w")
  case Nil
  with assms(1) have "w1 = w" and "ts_mem w p = v1" by (auto simp: load_quiet)
  with Nil assms(2) show ?thesis by (simp add: cas_quiet)
next
  case (Cons a rest)
  have "sched w2 = tl (sched w1)" using sched_cas [of p v1 v2 w1] assms(2) by simp
  moreover have "sched w1 = tl (sched w)" using sched_load [of p w] assms(1) by simp
  ultimately show ?thesis using Cons by (cases rest) simp_all
qed

section \<open>Locking a timestamp word\<close>

definition try_lock_slot :: "bytes \<Rightarrow> world \<Rightarrow> bool \<times> world" where
  "try_lock_slot p w =
     (let (v1, w1) = load p w
      in if lock_bit v1 then (False, w1)
         else timestamp_set_compare_and_swap p v1 (v1\<lparr>lock_bit := True\<rparr>) w1)"

function unlock_slot :: "bytes \<Rightarrow> world \<Rightarrow> world" where
  "unlock_slot p w =
     (let (v1, w1) = load p w;
          (is_success, w2) = timestamp_set_compare_and_swap p v1 (v1\<lparr>lock_bit := False\<rparr>) w1
      in if is_success then w2 else unlock_slot p w2)"
  by pat_completeness auto
termination
proof (relation "measure (\<lambda>(p, w). length (sched w))")
  show "wf (measure (\<lambda>(p, w). length (sched w)))" by simp
next
  fix p w x v1 w1 y is_success w2
  assume "x = load p w" "(v1, w1) = x"
    "y = timestamp_set_compare_and_swap p v1 (v1\<lparr>lock_bit := False\<rparr>) w1"
    "(is_success, w2) = y" "\<not> is_success"
  then have "length (sched w2) < length (sched w)"
    using cas_after_load_fails [of p w v1 w1 "v1\<lparr>lock_bit := False\<rparr>" w2] by simp
  then show "((p, w2), (p, w)) \<in> measure (\<lambda>(p, w). length (sched w))" by simp
qed

declare unlock_slot.simps [simp del]

text \<open>
  \<^verbatim>\<open>rw_entry_try_lock\<close> and \<^verbatim>\<open>rw_entry_unlock\<close> dereference \<^verbatim>\<open>entry->tuple_ts\<close>.
\<close>

definition rw_entry_try_lock :: "rw_entry \<Rightarrow> world \<Rightarrow> error + bool \<times> world" where
  "rw_entry_try_lock entry w =
     (case tuple_ts entry of
        None \<Rightarrow> Inl Null_pointer
      | Some p \<Rightarrow> (let (ok, w') = try_lock_slot p w in Inr (ok, emit (Try_lock p ok) w')))"

definition rw_entry_unlock :: "rw_entry \<Rightarrow> world \<Rightarrow> error + world" where
  "rw_entry_unlock entry w =
     (case tuple_ts entry of
        None \<Rightarrow> Inl Null_pointer
      | Some p \<Rightarrow> Inr (emit (Unlock p) (unlock_slot p w)))"

section \<open>The timestamp cache\<close>

definition zero_timestamp_set :: timestamp_set where
  "zero_timestamp_set = \<lparr>lock_bit = False, delta = 0, wts = 0\<rparr>"

text \<open>
  Modelled from the spec: the timestamp cache (\<^verbatim>\<open>iceberg_table.h\<close>) is not among the
  sources. \<open>insert_or_get(key)\<close>: "if absent, inserts a fresh slot with timestamp word
  zero and refcount 1; otherwise increments refcount and returns the existing slot";
  the result tells whether the slot is new. The slot pointer handed back is the key.
\<close>

definition iceberg_insert_and_get :: "bytes \<Rightarrow> world \<Rightarrow> bool \<times> world" where
  "iceberg_insert_and_get k w =
     (case refcount w k of
        None \<Rightarrow>
          (True, w\<lparr>ts_mem := (ts_mem w)(k := zero_timestamp_set),
                    refcount := (refcount w)(k \<mapsto> 1)\<rparr>)
      | Some n \<Rightarrow> (False, w\<lparr>refcount := (refcount w)(k \<mapsto> Suc n)\<rparr>))"

text \<open>
  Modelled from the spec: the "keep all keys" variant, which takes no reference and
  never removes a slot.
\<close>

definition iceberg_insert_and_get_without_increasing_refcount ::
  "bytes \<Rightarrow> world \<Rightarrow> bool \<times> world" where
  "iceberg_insert_and_get_without_increasing_refcount k w =
     (case refcount w k of
        None \<Rightarrow>
          (True, w\<lparr>ts_mem := (ts_mem w)(k := zero_timestamp_set),
                    refcount := (refcount w)(k \<mapsto> 0)\<rparr>)
      | Some n \<Rightarrow> (False, w))"

text \<open>
  Modelled from the spec: \<open>release(key)\<close> "decrements refcount; if it drops to zero,
  removes the slot"; the result tells whether the slot was removed.
\<close>

definition iceberg_get_and_remove :: "bytes \<Rightarrow> world \<Rightarrow> bool \<times> world" where
  "iceberg_get_and_remove k w =
     (case refcount w k of
        None \<Rightarrow> (False, w)
      | Some n \<Rightarrow>
          if n \<le> 1 then (True, w\<lparr>refcount := (refcount w)(k := None)\<rparr>)
          else (False, w\<lparr>refcount := (refcount w)(k \<mapsto> n - 1)\<rparr>))"

section \<open>Read/write entries\<close>

text \<open>
  The two assertions of \<^verbatim>\<open>rw_entry_iceberg_insert\<close> (the slot pointer was set by the
  cache, and is 8-byte aligned) hold of every slot of the cache as modelled.
\<close>

definition rw_entry_iceberg_insert ::
  "txn_env \<Rightarrow> rw_entry \<Rightarrow> world \<Rightarrow> bool \<times> rw_entry \<times> world" where
  "rw_entry_iceberg_insert env entry w =
     (if tuple_ts entry \<noteq> None then (False, entry, w)
      else
        (let (is_new_item, w') =
               (if EXPERIMENTAL_MODE_KEEP_ALL_KEYS env
                then iceberg_insert_and_get_without_increasing_refcount (key entry) w
                else iceberg_insert_and_get (key entry) w)
         in (is_new_item,
             entry\<lparr>tuple_ts := Some (key entry),
                   need_to_keep_key := (need_to_keep_key entry \<or> is_new_item)\<rparr>,
             w')))"

text \<open>
  \<^verbatim>\<open>rw_entry_iceberg_remove\<close> is only called on an entry that is freed right after
  (\<^verbatim>\<open>transaction_deinit\<close>), so its effect on the cache is what remains. Heap
  deallocation has no counterpart here.
\<close>

definition rw_entry_iceberg_remove :: "txn_env \<Rightarrow> rw_entry \<Rightarrow> world \<Rightarrow> world" where
  "rw_entry_iceberg_remove env entry w =
     (case tuple_ts entry of
        None \<Rightarrow> w
      | Some p \<Rightarrow>
          if EXPERIMENTAL_MODE_KEEP_ALL_KEYS env then w
          else snd (iceberg_get_and_remove (key entry) w))"

definition rw_entry_create :: rw_entry where
  "rw_entry_create =
     \<lparr>key = [], msg = None, wts = 0, rts = 0, tuple_ts = None, is_read = False,
      need_to_keep_key = False, need_to_decrease_refcount = False\<rparr>"

text \<open>
  \<^verbatim>\<open>rw_entry_set_key\<close>: a zero-filled buffer of \<^verbatim>\<open>KEY_SIZE\<close> bytes, the user key copied
  to its start, and a slice of length \<^verbatim>\<open>KEY_SIZE\<close>. The \<^verbatim>\<open>memcpy\<close> of a longer user key
  writes past the end of the buffer.
\<close>

definition rw_entry_set_key :: "txn_env \<Rightarrow> rw_entry \<Rightarrow> bytes \<Rightarrow> error + rw_entry" where
  "rw_entry_set_key env e user_key =
     (if KEY_SIZE env < length user_key then Inl Buffer_overflow
      else Inr (e\<lparr>key := user_key @ replicate (KEY_SIZE env - length user_key) 0\<rparr>))"

definition rw_entry_set_msg :: "rw_entry \<Rightarrow> message \<Rightarrow> rw_entry" where
  "rw_entry_set_msg e m =
     e\<lparr>msg := Some \<lparr>message_class = message_class m, message_data = message_data m\<rparr>\<rparr>"

definition rw_entry_is_read :: "rw_entry \<Rightarrow> bool" where
  "rw_entry_is_read entry = is_read entry"

definition rw_entry_is_write :: "rw_entry \<Rightarrow> bool" where
  "rw_entry_is_write entry = (msg entry \<noteq> None)"

text \<open>The search loop of \<^verbatim>\<open>rw_entry_get\<close>: the index of the first entry that matches.\<close>

fun rw_entry_search :: "txn_env \<Rightarrow> bytes \<Rightarrow> rw_entry list \<Rightarrow> nat option" where
  "rw_entry_search env ukey [] = None"
| "rw_entry_search env ukey (entry # rest) =
     (if key_compare env ukey (key entry) = 0 then Some 0
      else map_option Suc (rw_entry_search env ukey rest))"

text \<open>
  \<^verbatim>\<open>rw_entry_get\<close> returns the entry by its index in \<^verbatim>\<open>txn->rw_entries\<close>. The array
  has \<^verbatim>\<open>RW_SET_SIZE_LIMIT\<close> places; appending to a full array writes past its end.
\<close>

definition rw_entry_get ::
  "txn_env \<Rightarrow> transaction \<Rightarrow> bytes \<Rightarrow> bool \<Rightarrow> error + nat \<times> transaction" where
  "rw_entry_get env txn user_key is_read_arg =
     (case rw_entry_search env user_key (rw_entries txn) of
        Some i \<Rightarrow>
          (let entry = rw_entries txn ! i
           in Inr (i, txn\<lparr>rw_entries :=
                        (rw_entries txn)[i := entry\<lparr>is_read := (is_read entry \<or> is_read_arg)\<rparr>]\<rparr>))
      | None \<Rightarrow>
          (case rw_entry_set_key env rw_entry_create user_key of
             Inl err \<Rightarrow> Inl err
           | Inr entry \<Rightarrow>
               if RW_SET_SIZE_LIMIT env \<le> num_rw_entries txn then Inl Buffer_overflow
               else Inr (num_rw_entries txn,
                         txn\<lparr>rw_entries :=
                               rw_entries txn
                                 @ [entry\<lparr>is_read := (is_read entry \<or> is_read_arg)\<rparr>]\<rparr>)))"

definition rw_entry_key_compare :: "txn_env \<Rightarrow> rw_entry \<Rightarrow> rw_entry \<Rightarrow> int" where
  "rw_entry_key_compare env e1 e2 = key_compare env (key e1) (key e2)"

definition transactional_splinterdb_begin :: transaction where
  "transactional_splinterdb_begin = \<lparr>rw_entries = []\<rparr>"

definition transaction_deinit :: "txn_env \<Rightarrow> rw_entry list \<Rightarrow> world \<Rightarrow> world" where
  "transaction_deinit env entries w = fold (rw_entry_iceberg_remove env) entries w"

definition transactional_splinterdb_abort ::
  "txn_env \<Rightarrow> transaction \<Rightarrow> world \<Rightarrow> int \<times> world" where
  "transactional_splinterdb_abort env txn w = (0, transaction_deinit env (rw_entries txn) w)"

section \<open>Buffered writes\<close>

text \<open>Lines 545 to 552 of \<^verbatim>\<open>local_write\<close>: install the slot and sample its timestamps.\<close>

definition local_write_sample :: "txn_env \<Rightarrow> rw_entry \<Rightarrow> world \<Rightarrow> error + rw_entry \<times> world" where
  "local_write_sample env entry w =
     (let (is_new_item, entry1, w1) = rw_entry_iceberg_insert env entry w
      in case tuple_ts entry1 of
           None \<Rightarrow> Inl Null_pointer
         | Some p \<Rightarrow>
             (let (v, w2) = load p w1
              in Inr (entry1\<lparr>wts := ucast (timestamp_set.wts v),
                             rts := timestamp_set_get_rts v\<rparr>, w2)))"

text \<open>Lines 554 to 573 of \<^verbatim>\<open>local_write\<close>: the pending message of the entry.\<close>

definition local_write_msg :: "txn_env \<Rightarrow> bytes \<Rightarrow> message \<Rightarrow> rw_entry \<Rightarrow> error + rw_entry" where
  "local_write_msg env user_key m entry =
     (case msg entry of
        None \<Rightarrow> Inr (rw_entry_set_msg entry m)
      | Some old \<Rightarrow>
          if key_compare env (key entry) user_key = 0 then
            (if message_is_definitive m then Inr (rw_entry_set_msg entry m)
             else if message_class old = MESSAGE_TYPE_DELETE then Inl Assertion_failed
             else Inr (entry\<lparr>msg := Some (merge_tuples env user_key old m)\<rparr>))
          else Inr entry)"

definition local_write ::
  "txn_env \<Rightarrow> transaction \<Rightarrow> world \<Rightarrow> bytes \<Rightarrow> message \<Rightarrow> error + int \<times> transaction \<times> world" where
  "local_write env txn w user_key m =
     (case rw_entry_get env txn user_key False of
        Inl err \<Rightarrow> Inl err
      | Inr (i, txn1) \<Rightarrow>
          (case (if message_class m = MESSAGE_TYPE_UPDATE \<or> message_class m = MESSAGE_TYPE_DELETE
                 then local_write_sample env (rw_entries txn1 ! i) w
                 else Inr (rw_entries txn1 ! i, w)) of
             Inl err \<Rightarrow> Inl err
           | Inr (entry1, w1) \<Rightarrow>
               (case local_write_msg env user_key m entry1 of
                  Inl err \<Rightarrow> Inl err
                | Inr entry2 \<Rightarrow>
                    Inr (0, txn1\<lparr>rw_entries := (rw_entries txn1)[i := entry2]\<rparr>, w1))))"

definition transactional_splinterdb_insert ::
  "txn_env \<Rightarrow> transaction \<Rightarrow> world \<Rightarrow> bytes \<Rightarrow> bytes \<Rightarrow> error + int \<times> transaction \<times> world" where
  "transactional_splinterdb_insert env txn w user_key v =
     local_write env txn w user_key \<lparr>message_class = MESSAGE_TYPE_INSERT, message_data = v\<rparr>"

definition transactional_splinterdb_delete ::
  "txn_env \<Rightarrow> transaction \<Rightarrow> world \<Rightarrow> bytes \<Rightarrow> error + int \<times> transaction \<times> world" where
  "transactional_splinterdb_delete env txn w user_key =
     local_write env txn w user_key DELETE_MESSAGE"

definition transactional_splinterdb_update ::
  "txn_env \<Rightarrow> transaction \<Rightarrow> world \<Rightarrow> bytes \<Rightarrow> bytes \<Rightarrow> error + int \<times> transaction \<times> world" where
  "transactional_splinterdb_update env txn w user_key d =
     local_write env txn w user_key \<lparr>message_class = MESSAGE_TYPE_UPDATE, message_data = d\<rparr>"

section \<open>Lookup\<close>

text \<open>
  The loop of \<^verbatim>\<open>transactional_splinterdb_lookup\<close> (lines 619 to 643). It spins while
  the two snapshots differ or the lock bit is set, so it need not return: the first
  argument bounds the number of iterations, and \<open>None\<close> says that the loop is still
  spinning. It returns the two snapshots, the status and the caller's result buffer.
\<close>

fun lookup_loop ::
  "nat \<Rightarrow> txn_env \<Rightarrow> bytes \<Rightarrow> rw_entry \<Rightarrow> bytes \<Rightarrow> int \<times> bytes \<Rightarrow> world
     \<Rightarrow> ((timestamp_set \<times> timestamp_set) \<times> (int \<times> bytes) \<times> world) option" where
  "lookup_loop 0 env user_key entry p res w = None"
| "lookup_loop (Suc n) env user_key entry p res w =
     (let (v1, w1) = load p w;
          (res', w2) =
             (if EXPERIMENTAL_MODE_BYPASS_SPLINTERDB env then (res, platform_sleep_ns 100 w1)
              else (case msg entry of
                      Some m \<Rightarrow> ((fst res, message_data m), w1)
                    | None \<Rightarrow> splinterdb_call env (Splinterdb_lookup user_key) w1));
          (v2, w3) = load p w2
      in if v1 \<noteq> v2 \<or> lock_bit v1 then lookup_loop n env user_key entry p res' w3
         else Some ((v1, v2), res', w3))"

record lookup_return =
  lookup_rc :: int
  lookup_result :: bytes
  lookup_txn :: transaction
  lookup_world :: world
  lookup_snapshots :: "timestamp_set \<times> timestamp_set"

definition transactional_splinterdb_lookup ::
  "nat \<Rightarrow> txn_env \<Rightarrow> transaction \<Rightarrow> world \<Rightarrow> bytes \<Rightarrow> bytes \<Rightarrow> (error + lookup_return) option" where
  "transactional_splinterdb_lookup fuel env txn w user_key result =
     (case rw_entry_get env txn user_key True of
        Inl err \<Rightarrow> Some (Inl err)
      | Inr (i, txn1) \<Rightarrow>
          (let (is_new_item, entry, w1) = rw_entry_iceberg_insert env (rw_entries txn1 ! i) w
           in case tuple_ts entry of
                None \<Rightarrow> Some (Inl Null_pointer)
              | Some p \<Rightarrow>
                  (case lookup_loop fuel env user_key entry p (0, result) w1 of
                     None \<Rightarrow> None
                   | Some ((v1, v2), (rc, result'), w2) \<Rightarrow>
                       Some (Inr \<lparr>lookup_rc = rc, lookup_result = result',
                                  lookup_txn = txn1\<lparr>rw_entries := (rw_entries txn1)
                                    [i := entry\<lparr>wts := ucast (timestamp_set.wts v1),
                                                rts := timestamp_set_get_rts v1\<rparr>]\<rparr>,
                                  lookup_world = w2, lookup_snapshots = (v1, v2)\<rparr>))))"

section \<open>Commit\<close>

text \<open>
  Lines 393 to 408: the walk over the entries that builds the read set and the write
  set and the first bound on \<open>commit_ts\<close>. The two sets hold pointers to the entries
  of the transaction; here they hold the indices of the entries, so that what commit
  stores into an entry through one set is seen through the other. \<open>read_bound\<close> is
  the \<open>wts\<close> of lines 402 to 405, which the Silo build increments.
\<close>

definition read_bound :: "txn_env \<Rightarrow> rw_entry \<Rightarrow> txn_timestamp" where
  "read_bound env entry =
     (if EXPERIMENTAL_MODE_SILO env then rw_entry.wts entry + 1 else rw_entry.wts entry)"

fun commit_partition ::
  "txn_env \<Rightarrow> rw_entry list \<Rightarrow> nat \<Rightarrow> nat list \<times> nat list \<times> txn_timestamp
     \<Rightarrow> nat list \<times> nat list \<times> txn_timestamp" where
  "commit_partition env [] i acc = acc"
| "commit_partition env (entry # rest) i (read_set, write_set, commit_ts) =
     commit_partition env rest (Suc i)
       (if rw_entry_is_read entry then read_set @ [i] else read_set,
        if rw_entry_is_write entry then write_set @ [i] else write_set,
        if rw_entry_is_read entry then max commit_ts (read_bound env entry) else commit_ts)"

text \<open>
  Modelled from the spec: \<^verbatim>\<open>platform_sort_slow\<close> is not among the sources. The spec:
  "Sort write_set by key comparator ascending". An insertion sort with the
  comparator it is given.
\<close>

fun sort_insert :: "('a \<Rightarrow> 'a \<Rightarrow> int) \<Rightarrow> 'a \<Rightarrow> 'a list \<Rightarrow> 'a list" where
  "sort_insert cmp x [] = [x]"
| "sort_insert cmp x (y # ys) =
     (if cmp x y \<le> 0 then x # y # ys else y # sort_insert cmp x ys)"

definition platform_sort_slow :: "('a \<Rightarrow> 'a \<Rightarrow> int) \<Rightarrow> 'a list \<Rightarrow> 'a list" where
  "platform_sort_slow cmp xs = foldr (sort_insert cmp) xs []"

text \<open>The loops that release the write locks (lines 427 to 429 and 517 to 519).\<close>

fun unlock_all :: "rw_entry list \<Rightarrow> nat list \<Rightarrow> world \<Rightarrow> error + world" where
  "unlock_all entries [] w = Inr w"
| "unlock_all entries (i # rest) w =
     (case rw_entry_unlock (entries ! i) w of
        Inl err \<Rightarrow> Inl err
      | Inr w' \<Rightarrow> unlock_all entries rest w')"

text \<open>
  One pass of the loop under \<^verbatim>\<open>RETRY_LOCK_WRITE_SET\<close> (lines 419 to 436): \<open>acquired\<close>
  are the writes locked so far in this pass (\<^verbatim>\<open>write_set[0 .. lock_num - 1]\<close>), the
  next argument the writes still to lock. The pass ends with \<open>True\<close> when every
  write is locked, and with \<open>False\<close>, after the unlocks and the sleep, where the code
  jumps back to the label. \<open>install_for_lock\<close> is lines 421 to 423; the entry it
  returns is stored back, as the code updates the entry in place.
\<close>

definition install_for_lock :: "txn_env \<Rightarrow> rw_entry \<Rightarrow> world \<Rightarrow> rw_entry \<times> world" where
  "install_for_lock env entry w =
     (if tuple_ts entry = None
      then (let (is_new_item, e, w') = rw_entry_iceberg_insert env entry w in (e, w'))
      else (entry, w))"

fun lock_pass ::
  "txn_env \<Rightarrow> nat list \<Rightarrow> nat list \<Rightarrow> rw_entry list \<Rightarrow> world
     \<Rightarrow> error + bool \<times> rw_entry list \<times> world" where
  "lock_pass env acquired [] entries w = Inr (True, entries, w)"
| "lock_pass env acquired (i # rest) entries w =
     (let (entry, w1) = install_for_lock env (entries ! i) w;
          entries1 = entries[i := entry]
      in case rw_entry_try_lock entry w1 of
           Inl err \<Rightarrow> Inl err
         | Inr (locked, w2) \<Rightarrow>
             if locked then lock_pass env (acquired @ [i]) rest entries1 w2
             else (case unlock_all entries1 acquired w2 of
                     Inl err \<Rightarrow> Inl err
                   | Inr w3 \<Rightarrow> Inr (False, entries1, platform_sleep_ns 1000 w3)))"

text \<open>
  The retry loop (the \<^verbatim>\<open>goto\<close>). It runs until a pass locks every write, which need not
  happen: the first argument bounds the number of passes, and \<open>None\<close> says that commit
  is still retrying.
\<close>

fun lock_write_set ::
  "nat \<Rightarrow> txn_env \<Rightarrow> nat list \<Rightarrow> rw_entry list \<Rightarrow> world
     \<Rightarrow> (error + rw_entry list \<times> world) option" where
  "lock_write_set 0 env write_set entries w = None"
| "lock_write_set (Suc n) env write_set entries w =
     (case lock_pass env [] write_set entries w of
        Inl err \<Rightarrow> Some (Inl err)
      | Inr (done, entries1, w1) \<Rightarrow>
          if done then Some (Inr (entries1, w1))
          else lock_write_set n env write_set entries1 w1)"

text \<open>
  Lines 439 to 442. Besides the raised \<open>commit_ts\<close> the function returns the words it
  loaded, one for each write in the order of the write set.
\<close>

fun raise_commit_ts ::
  "rw_entry list \<Rightarrow> nat list \<Rightarrow> txn_timestamp \<Rightarrow> world
     \<Rightarrow> error + txn_timestamp \<times> timestamp_set list \<times> world" where
  "raise_commit_ts entries [] commit_ts w = Inr (commit_ts, [], w)"
| "raise_commit_ts entries (i # rest) commit_ts w =
     (case tuple_ts (entries ! i) of
        None \<Rightarrow> Inl Null_pointer
      | Some p \<Rightarrow>
          (let (v, w1) = load p w
           in case raise_commit_ts entries rest (max commit_ts (timestamp_set_get_rts v + 1)) w1 of
                Inl err \<Rightarrow> Inl err
              | Inr (commit_ts', loaded, w2) \<Rightarrow> Inr (commit_ts', v # loaded, w2)))"

text \<open>
  The \<^verbatim>\<open>do ... while (!is_success)\<close> loop of read validation (lines 452 to 472) for one
  read entry \<open>r\<close> with slot \<open>p\<close>. The lock bit is read from the slot again
  (\<^verbatim>\<open>r->tuple_ts->lock_bit\<close>), and only when \<open>rts \<le> commit_ts\<close>. The function returns the
  abort flag and, for every turn of the loop, the snapshot \<open>v1\<close> together with the lock
  bit it read (\<open>None\<close> when it did not read it).
\<close>

definition load_lock_bit_if :: "bool \<Rightarrow> bytes \<Rightarrow> world \<Rightarrow> bool option \<times> world" where
  "load_lock_bit_if c p w =
     (if c then (let (v, w') = load p w in (Some (lock_bit v), w')) else (None, w))"

function validate_read ::
  "txn_timestamp \<Rightarrow> rw_entry \<Rightarrow> bytes \<Rightarrow> world
     \<Rightarrow> bool \<times> (timestamp_set \<times> bool option) list \<times> world" where
  "validate_read commit_ts r p w =
     (let (v1, w1) = load p w;
          is_wts_different = (rw_entry.wts r \<noteq> ucast (timestamp_set.wts v1));
          rts_v1 = timestamp_set_get_rts v1;
          (seen, w2) = load_lock_bit_if (rts_v1 \<le> commit_ts) p w1;
          is_locked_by_another =
             (rts_v1 \<le> commit_ts \<and> seen = Some True \<and> \<not> rw_entry_is_write r)
      in if is_wts_different \<or> is_locked_by_another then (True, [(v1, seen)], w2)
         else if rts_v1 \<le> commit_ts then
           (let (is_success, w3) =
                  timestamp_set_compare_and_swap p v1 (rts_extension commit_ts v1) w2
            in if is_success then (False, [(v1, seen)], w3)
               else (let (is_abort, obs, w4) = validate_read commit_ts r p w3
                     in (is_abort, (v1, seen) # obs, w4)))
         else (False, [(v1, seen)], w2))"
  by pat_completeness auto
termination
proof (relation "measure (\<lambda>(commit_ts, r, p, w). length (sched w))")
  show "wf (measure (\<lambda>(commit_ts, r, p, w). length (sched w)))" by simp
next
  fix commit_ts :: txn_timestamp and r :: rw_entry and p :: bytes and w :: world
    and x v1 w1 is_wts_different rts_v1 xa seen w2 is_locked_by_another xb is_success w3
  assume a: "x = load p w" "(v1, w1) = x"
    "rts_v1 = timestamp_set_get_rts v1"
    "xa = load_lock_bit_if (rts_v1 \<le> commit_ts) p w1"
    "(seen, w2) = xa"
    "rts_v1 \<le> commit_ts"
    "xb = timestamp_set_compare_and_swap p v1 (rts_extension commit_ts v1) w2"
    "(is_success, w3) = xb"
    "\<not> is_success"
  have w2: "w2 = snd (load p w1)"
    using a(4-6) by (simp add: load_lock_bit_if_def case_prod_beta split: if_splits)
  have s3: "sched w3 = tl (sched w2)"
    using sched_cas [of p v1 "rts_extension commit_ts v1" w2] a(7,8) by (simp add: snd_def split: prod.splits)
  have s2: "sched w2 = tl (sched w1)" using w2 sched_load [of p w1] by simp
  have s1: "sched w1 = tl (sched w)"
    using sched_load [of p w] a(1,2) by (simp add: snd_def split: prod.splits)
  have "sched w \<noteq> []"
  proof
    assume q: "sched w = []"
    then have "w1 = w" "ts_mem w p = v1" using a(1,2) by (auto simp: load_quiet)
    moreover from this q have "w2 = w" using w2 by (simp add: load_quiet)
    ultimately have "is_success" using a(7,8) q by (simp add: cas_quiet)
    with a(9) show False by simp
  qed
  then have "length (sched w3) < length (sched w)"
    using s1 s2 s3 by (cases "sched w") simp_all
  then show "((commit_ts, r, p, w3), (commit_ts, r, p, w))
      \<in> measure (\<lambda>(commit_ts, r, p, w). length (sched w))" by simp
qed

declare validate_read.simps [simp del]

text \<open>
  The loop over the read set (lines 445 to 474). Its log pairs each read entry that
  was validated (by index) with what \<open>validate_read\<close> observed for it.
\<close>

fun validate_read_set ::
  "txn_timestamp \<Rightarrow> rw_entry list \<Rightarrow> nat list \<Rightarrow> world
     \<Rightarrow> error + bool \<times> (nat \<times> (timestamp_set \<times> bool option) list) list \<times> world" where
  "validate_read_set commit_ts entries [] w = Inr (False, [], w)"
| "validate_read_set commit_ts entries (i # rest) w =
     (let r = entries ! i
      in if \<not> rw_entry_is_read r then Inl Assertion_failed
         else if rw_entry.rts r < commit_ts then
           (case tuple_ts r of
              None \<Rightarrow> Inl Null_pointer
            | Some p \<Rightarrow>
                (let (is_abort, obs, w1) = validate_read commit_ts r p w
                 in if is_abort then Inr (True, [(i, obs)], w1)
                    else (case validate_read_set commit_ts entries rest w1 of
                            Inl err \<Rightarrow> Inl err
                          | Inr (is_abort', log, w2) \<Rightarrow> Inr (is_abort', (i, obs) # log, w2))))
         else validate_read_set commit_ts entries rest w)"

text \<open>The \<^verbatim>\<open>do ... while\<close> loop of lines 508 to 514, on the slot \<open>p\<close>.\<close>

function write_committed_word :: "txn_timestamp \<Rightarrow> bytes \<Rightarrow> world \<Rightarrow> world" where
  "write_committed_word commit_ts p w =
     (let (v1, w1) = load p w;
          (is_success, w2) =
             timestamp_set_compare_and_swap p v1 (committed_word commit_ts v1) w1
      in if is_success then w2 else write_committed_word commit_ts p w2)"
  by pat_completeness auto
termination
proof (relation "measure (\<lambda>(commit_ts, p, w). length (sched w))")
  show "wf (measure (\<lambda>(commit_ts, p, w). length (sched w)))" by simp
next
  fix commit_ts :: txn_timestamp and p w x v1 w1 y is_success w2
  assume "x = load p w" "(v1, w1) = x"
    "y = timestamp_set_compare_and_swap p v1 (committed_word commit_ts v1) w1"
    "(is_success, w2) = y" "\<not> is_success"
  then have "length (sched w2) < length (sched w)"
    using cas_after_load_fails [of p w v1 w1 "committed_word commit_ts v1" w2] by simp
  then show "((commit_ts, p, w2), (commit_ts, p, w))
      \<in> measure (\<lambda>(commit_ts, p, w). length (sched w))" by simp
qed

declare write_committed_word.simps [simp del]

text \<open>
  The call into the key-value store for one write (lines 483 to 507). With
  \<^verbatim>\<open>EXPERIMENTAL_MODE_BYPASS_SPLINTERDB\<close> the build sleeps instead. The result is the
  status \<open>rc\<close>.
\<close>

definition apply_to_splinterdb :: "txn_env \<Rightarrow> rw_entry \<Rightarrow> message \<Rightarrow> world \<Rightarrow> int \<times> world" where
  "apply_to_splinterdb env entry m w =
     (if EXPERIMENTAL_MODE_BYPASS_SPLINTERDB env then (0, platform_sleep_ns 100 w)
      else (case message_class m of
              MESSAGE_TYPE_INSERT \<Rightarrow>
                (let (r, w') = splinterdb_call env (Splinterdb_insert (key entry) (message_data m)) w
                 in (fst r, w'))
            | MESSAGE_TYPE_UPDATE \<Rightarrow>
                (let (r, w') = splinterdb_call env (Splinterdb_update (key entry) (message_data m)) w
                 in (fst r, w'))
            | MESSAGE_TYPE_DELETE \<Rightarrow>
                (let (r, w') = splinterdb_call env (Splinterdb_delete (key entry)) w
                 in (fst r, w'))
            | MESSAGE_TYPE_INVALID \<Rightarrow> (0, w)))"

text \<open>The loop that applies the writes (lines 479 to 515).\<close>

fun apply_writes ::
  "txn_env \<Rightarrow> txn_timestamp \<Rightarrow> rw_entry list \<Rightarrow> nat list \<Rightarrow> world \<Rightarrow> error + world" where
  "apply_writes env commit_ts entries [] w = Inr w"
| "apply_writes env commit_ts entries (i # rest) w =
     (case msg (entries ! i) of
        None \<Rightarrow> Inl Assertion_failed
      | Some m \<Rightarrow>
          (let (rc, w1) = apply_to_splinterdb env (entries ! i) m w
           in if rc \<noteq> 0 then Inl Assertion_failed
              else (case tuple_ts (entries ! i) of
                      None \<Rightarrow> Inl Null_pointer
                    | Some p \<Rightarrow>
                        apply_writes env commit_ts entries rest
                          (write_committed_word commit_ts p w1))))"

text \<open>
  What a run of commit went through, besides its return value \<open>commit_rc\<close> and the
  state it leaves (\<open>final_world\<close>): the two sets, the entries as they are after the
  locking, \<open>commit_ts\<close>, the words loaded when raising it, the log of read validation,
  and the states between the phases. The transaction itself is gone after commit.
\<close>

record commit_run =
  commit_rc :: int
  run_read_set :: "nat list"
  run_write_set :: "nat list"
  run_entries :: "rw_entry list"
  run_commit_ts :: txn_timestamp
  run_loaded :: "timestamp_set list"
  run_is_abort :: bool
  run_observations :: "(nat \<times> (timestamp_set \<times> bool option) list) list"
  after_locking :: world
  after_validation :: world
  before_teardown :: world
  final_world :: world

text \<open>Lines 439 to 524: commit from the point where every write is locked.\<close>

definition commit_locked ::
  "txn_env \<Rightarrow> nat list \<Rightarrow> nat list \<Rightarrow> txn_timestamp \<Rightarrow> rw_entry list \<Rightarrow> world
     \<Rightarrow> error + commit_run" where
  "commit_locked env read_set write_set commit_ts0 entries w1 =
     (case raise_commit_ts entries write_set commit_ts0 w1 of
        Inl err \<Rightarrow> Inl err
      | Inr (commit_ts, loaded, w2) \<Rightarrow>
          (case validate_read_set commit_ts entries read_set w2 of
             Inl err \<Rightarrow> Inl err
           | Inr (is_abort, log, w3) \<Rightarrow>
               (case (if \<not> is_abort then apply_writes env commit_ts entries write_set w3
                      else unlock_all entries write_set w3) of
                  Inl err \<Rightarrow> Inl err
                | Inr w4 \<Rightarrow>
                    Inr \<lparr>commit_rc = - 1 * (if is_abort then 1 else 0),
                         run_read_set = read_set, run_write_set = write_set,
                         run_entries = entries, run_commit_ts = commit_ts,
                         run_loaded = loaded, run_is_abort = is_abort,
                         run_observations = log,
                         after_locking = w1, after_validation = w3, before_teardown = w4,
                         final_world = transaction_deinit env entries w4\<rparr>)))"

definition transactional_splinterdb_commit ::
  "nat \<Rightarrow> txn_env \<Rightarrow> transaction \<Rightarrow> world \<Rightarrow> (error + commit_run) option" where
  "transactional_splinterdb_commit fuel env txn w =
     (let (read_set, write_set0, commit_ts0) =
            commit_partition env (rw_entries txn) 0 ([], [], 0);
          write_set =
            platform_sort_slow
              (\<lambda>i j. rw_entry_key_compare env (rw_entries txn ! i) (rw_entries txn ! j))
              write_set0
      in case lock_write_set fuel env write_set (rw_entries txn) w of
           None \<Rightarrow> None
         | Some (Inl err) \<Rightarrow> Some (Inl err)
         | Some (Inr (entries, w1)) \<Rightarrow>
             Some (commit_locked env read_set write_set commit_ts0 entries w1))"

section \<open>Notions used in the statements\<close>

text \<open>
  The slot an entry refers to: the slot it points to, or, before the entry has been
  installed in the cache, the slot \<^verbatim>\<open>rw_entry_iceberg_insert\<close> will make it point to.
  \<open>entry_installed e e'\<close>: the entry \<open>e'\<close> is \<open>e\<close>, or \<open>e\<close> after its installation.
\<close>

definition slot_of :: "rw_entry \<Rightarrow> bytes" where
  "slot_of e = (case tuple_ts e of Some p \<Rightarrow> p | None \<Rightarrow> key e)"

definition entry_installed :: "rw_entry \<Rightarrow> rw_entry \<Rightarrow> bool" where
  "entry_installed e e' \<longleftrightarrow>
     e' = e \<or> (tuple_ts e = None
                \<and> (\<exists>b. e' = e\<lparr>tuple_ts := Some (key e), need_to_keep_key := b\<rparr>))"

text \<open>
  The events of a pass of the locking loop that fails at the write of position \<open>k\<close>:
  the writes before it are locked, the lock of that write is not acquired, the locks
  taken before the pass (\<open>acq\<close>, none when the pass starts) and in the pass are
  released, and the thread sleeps 1000 ns.
\<close>

definition failed_pass_events :: "rw_entry list \<Rightarrow> nat list \<Rightarrow> nat list \<Rightarrow> nat \<Rightarrow> event list" where
  "failed_pass_events es acq todo k =
     map (\<lambda>i. Try_lock (slot_of (es ! i)) True) (take k todo)
     @ [Try_lock (slot_of (es ! (todo ! k))) False]
     @ map (\<lambda>i. Unlock (slot_of (es ! i))) (acq @ take k todo)
     @ [Platform_sleep_ns 1000]"

text \<open>
  The abort condition of read validation (lines 455 to 460) for the read entry \<open>r\<close>, on an
  observation: the snapshot \<open>v1\<close> and the lock bit read from the slot.
\<close>

definition abort_condition ::
  "txn_timestamp \<Rightarrow> rw_entry \<Rightarrow> timestamp_set \<times> bool option \<Rightarrow> bool" where
  "abort_condition commit_ts r obs =
     (case obs of (v1, seen) \<Rightarrow>
        rw_entry.wts r \<noteq> ucast (timestamp_set.wts v1)
        \<or> (timestamp_set_get_rts v1 \<le> commit_ts \<and> seen = Some True \<and> \<not> rw_entry_is_write r))"

text \<open>
  Clearing the lock bit of the slot \<open>p\<close> in one atomic store; \<open>release_step (p, n)\<close> lets the
  other threads take \<open>n\<close> steps first and records the unlock. \<open>is_splinterdb_call\<close> tells
  the calls into the key-value store from the other events.
\<close>

definition clear_lock_bit :: "bytes \<Rightarrow> world \<Rightarrow> world" where
  "clear_lock_bit p w = w\<lparr>ts_mem := (ts_mem w)(p := (ts_mem w p)\<lparr>lock_bit := False\<rparr>)\<rparr>"

definition release_step :: "bytes \<times> nat \<Rightarrow> world \<Rightarrow> world" where
  "release_step pn w = emit (Unlock (fst pn)) (clear_lock_bit (fst pn) ((env_step ^^ snd pn) w))"

definition is_splinterdb_call :: "event \<Rightarrow> bool" where
  "is_splinterdb_call ev =
     (case ev of
        Splinterdb_insert k v \<Rightarrow> True
      | Splinterdb_update k v \<Rightarrow> True
      | Splinterdb_delete k \<Rightarrow> True
      | Splinterdb_lookup k \<Rightarrow> True
      | Platform_sleep_ns n \<Rightarrow> False
      | Try_lock p b \<Rightarrow> False
      | Unlock p \<Rightarrow> False)"


definition apply_events :: "txn_env \<Rightarrow> rw_entry \<Rightarrow> event list" where
  "apply_events env e =
     (if EXPERIMENTAL_MODE_BYPASS_SPLINTERDB env then [Platform_sleep_ns 100]
      else (case msg e of
              None \<Rightarrow> []
            | Some m \<Rightarrow>
                (case message_class m of
                   MESSAGE_TYPE_INSERT \<Rightarrow> [Splinterdb_insert (key e) (message_data m)]
                 | MESSAGE_TYPE_UPDATE \<Rightarrow> [Splinterdb_update (key e) (message_data m)]
                 | MESSAGE_TYPE_DELETE \<Rightarrow> [Splinterdb_delete (key e)]
                 | MESSAGE_TYPE_INVALID \<Rightarrow> [])))"






text \<open>
  The teardown of the entries (\<^verbatim>\<open>transaction_deinit\<close>) releases one reference to the slot
  of its key for every entry that points to a slot. \<open>holders es k\<close> counts the entries of
  \<open>es\<close> with key \<open>k\<close> that point to a slot, and \<open>released m c\<close> is the reference count \<open>c\<close>
  of a key after \<open>m\<close> releases: the key leaves the cache when the count drops to zero.
\<close>

definition holders :: "rw_entry list \<Rightarrow> bytes \<Rightarrow> nat" where
  "holders es k = length (filter (\<lambda>e. tuple_ts e \<noteq> None \<and> key e = k) es)"

definition released :: "nat \<Rightarrow> nat option \<Rightarrow> nat option" where
  "released m c =
     (if m = 0 then c
      else (case c of None \<Rightarrow> None | Some n \<Rightarrow> if n \<le> m then None else Some (n - m)))"

section \<open>A quiet schedule\<close>

text \<open>
  When the schedule is used up no other thread interferes, and the atomic steps and
  the compare-and-swap loops have closed forms.
\<close>

lemma try_lock_slot_quiet:
  "sched w = [] \<Longrightarrow> try_lock_slot p w =
     (if lock_bit (ts_mem w p) then (False, w)
      else (True, w\<lparr>ts_mem := (ts_mem w)(p := (ts_mem w p)\<lparr>lock_bit := True\<rparr>)\<rparr>))"
  by (simp add: try_lock_slot_def load_quiet cas_quiet)

lemma unlock_slot_quiet:
  "sched w = [] \<Longrightarrow>
     unlock_slot p w = w\<lparr>ts_mem := (ts_mem w)(p := (ts_mem w p)\<lparr>lock_bit := False\<rparr>)\<rparr>"
  by (subst unlock_slot.simps) (simp add: load_quiet cas_quiet)

lemma write_committed_word_quiet:
  "sched w = [] \<Longrightarrow>
     write_committed_word c p w
       = w\<lparr>ts_mem := (ts_mem w)(p := committed_word c (ts_mem w p))\<rparr>"
  by (subst write_committed_word.simps) (simp add: load_quiet cas_quiet)

lemma load_lock_bit_if_quiet:
  "sched w = [] \<Longrightarrow>
     load_lock_bit_if c p w = (if c then Some (lock_bit (ts_mem w p)) else None, w)"
  by (simp add: load_lock_bit_if_def load_quiet)

lemma validate_read_quiet:
  "sched w = [] \<Longrightarrow>
     validate_read c r p w =
       (let v1 = ts_mem w p;
            seen = (if timestamp_set_get_rts v1 \<le> c then Some (lock_bit v1) else None)
        in if rw_entry.wts r \<noteq> ucast (timestamp_set.wts v1)
              \<or> (timestamp_set_get_rts v1 \<le> c \<and> lock_bit v1 \<and> \<not> rw_entry_is_write r)
           then (True, [(v1, seen)], w)
           else if timestamp_set_get_rts v1 \<le> c
           then (False, [(v1, seen)], w\<lparr>ts_mem := (ts_mem w)(p := rts_extension c v1)\<rparr>)
           else (False, [(v1, seen)], w))"
  by (subst validate_read.simps) (simp add: load_quiet load_lock_bit_if_quiet cas_quiet Let_def)

section \<open>The loops on a timestamp word\<close>

lemma trace_try_lock_slot: "trace (snd (try_lock_slot p w)) = trace w"
  using trace_load [of p w] trace_cas [of p "fst (load p w)" _ "snd (load p w)"]
  by (simp add: try_lock_slot_def case_prod_beta)

lemma trace_unlock_slot: "trace (unlock_slot p w) = trace w"
proof (induction p w rule: unlock_slot.induct)
  case (1 p w)
  obtain v1 w1 where l: "load p w = (v1, w1)" by (cases "load p w")
  obtain ok w2 where c: "timestamp_set_compare_and_swap p v1 (v1\<lparr>lock_bit := False\<rparr>) w1 = (ok, w2)"
    by (cases "timestamp_set_compare_and_swap p v1 (v1\<lparr>lock_bit := False\<rparr>) w1")
  have t2: "trace w2 = trace w"
    using trace_load [of p w] trace_cas [of p v1 "v1\<lparr>lock_bit := False\<rparr>" w1] l c by simp
  show ?case
  proof (cases ok)
    case True
    then show ?thesis using l c t2 by (subst unlock_slot.simps) simp
  next
    case False
    then have "trace (unlock_slot p w2) = trace w2"
      using "1.IH" [OF l [symmetric] refl c [symmetric] refl] by simp
    then show ?thesis using False l c t2 by (subst unlock_slot.simps) simp
  qed
qed

lemma trace_write_committed_word: "trace (write_committed_word c p w) = trace w"
proof (induction c p w rule: write_committed_word.induct)
  case (1 c p w)
  obtain v1 w1 where l: "load p w = (v1, w1)" by (cases "load p w")
  obtain ok w2 where
    cs: "timestamp_set_compare_and_swap p v1 (committed_word c v1) w1 = (ok, w2)"
    by (cases "timestamp_set_compare_and_swap p v1 (committed_word c v1) w1")
  have t2: "trace w2 = trace w"
    using trace_load [of p w] trace_cas [of p v1 "committed_word c v1" w1] l cs by simp
  show ?case
  proof (cases ok)
    case True
    then show ?thesis using l cs t2 by (subst write_committed_word.simps) simp
  next
    case False
    then have "trace (write_committed_word c p w2) = trace w2"
      using "1.IH" [OF l [symmetric] refl cs [symmetric] refl] by simp
    then show ?thesis using False l cs t2 by (subst write_committed_word.simps) simp
  qed
qed


section \<open>The parts of commit\<close>

lemma Max_insert_max:
  "finite S \<Longrightarrow> Max (insert (max c y) S) = Max (insert c (insert y S))"
  by (cases "S = {}") (simp_all add: max.assoc)

lemma commit_partition_eq:
  "commit_partition env es i (rs, ws, c) =
     (rs @ map fst (filter (\<lambda>(j, e). rw_entry_is_read e) (enumerate i es)),
      ws @ map fst (filter (\<lambda>(j, e). rw_entry_is_write e) (enumerate i es)),
      Max (insert c (read_bound env ` {e \<in> set es. rw_entry_is_read e})))"
proof (induction es arbitrary: i rs ws c)
  case Nil
  then show ?case by simp
next
  case (Cons e es)
  have fin: "finite (read_bound env ` {e \<in> set es. rw_entry_is_read e})" by simp
  show ?case
  proof (cases "rw_entry_is_read e")
    case True
    then have set_eq: "{x \<in> set (e # es). rw_entry_is_read x}
        = insert e {x \<in> set es. rw_entry_is_read x}" by auto
    have "Max (insert (max c (read_bound env e)) (read_bound env ` {e \<in> set es. rw_entry_is_read e}))
        = Max (insert c (read_bound env ` {x \<in> set (e # es). rw_entry_is_read x}))"
      unfolding set_eq image_insert by (rule Max_insert_max [OF fin])
    then show ?thesis
      using True by (simp add: Cons.IH del: set_simps)
  next
    case False
    then have set_eq: "{x \<in> set (e # es). rw_entry_is_read x}
        = {x \<in> set es. rw_entry_is_read x}" by auto
    show ?thesis
      using False unfolding set_eq by (simp add: Cons.IH)
  qed
qed



lemma enumerate_filter_nth:
  "map fst (filter (\<lambda>(j, e). P e) (enumerate 0 es)) = filter (\<lambda>j. P (es ! j)) [0..<length es]"
proof (induction es rule: rev_induct)
  case Nil
  show ?case by simp
next
  case (snoc e es)
  have "filter (\<lambda>j. P ((es @ [e]) ! j)) [0..<length es] = filter (\<lambda>j. P (es ! j)) [0..<length es]"
    by (rule filter_cong) (simp_all add: nth_append)
  then show ?case using snoc by (simp add: enumerate_append_eq)
qed

lemma commit_SomeD:
  assumes "transactional_splinterdb_commit fuel env txn w = Some (Inr run)"
  obtains rs ws0 c0 es1 w1 where
    "commit_partition env (rw_entries txn) 0 ([], [], 0) = (rs, ws0, c0)"
    "lock_write_set fuel env
       (platform_sort_slow
          (\<lambda>i j. rw_entry_key_compare env (rw_entries txn ! i) (rw_entries txn ! j)) ws0)
       (rw_entries txn) w = Some (Inr (es1, w1))"
    "commit_locked env rs
       (platform_sort_slow
          (\<lambda>i j. rw_entry_key_compare env (rw_entries txn ! i) (rw_entries txn ! j)) ws0)
       c0 es1 w1 = Inr run"
  using assms
  by (auto simp: transactional_splinterdb_commit_def Let_def
      split: prod.splits option.splits sum.splits)

lemma commit_locked_InrD:
  assumes "commit_locked env rs ws c0 es w1 = Inr run"
  obtains c loaded w2 ab log w3 w4 where
    "raise_commit_ts es ws c0 w1 = Inr (c, loaded, w2)"
    "validate_read_set c es rs w2 = Inr (ab, log, w3)"
    "(if \<not> ab then apply_writes env c es ws w3 else unlock_all es ws w3) = Inr w4"
    "run = \<lparr>commit_rc = - 1 * (if ab then 1 else 0),
            run_read_set = rs, run_write_set = ws,
            run_entries = es, run_commit_ts = c,
            run_loaded = loaded, run_is_abort = ab,
            run_observations = log,
            after_locking = w1, after_validation = w3, before_teardown = w4,
            final_world = transaction_deinit env es w4\<rparr>"
  using assms unfolding commit_locked_def
  by (auto split: prod.splits sum.splits)

section \<open>The locking loop\<close>

lemma entry_installed_refl: "entry_installed e e"
  by (simp add: entry_installed_def)

lemma entry_installed_fields:
  assumes "entry_installed e e'"
  shows "key e' = key e" "msg e' = msg e" "rw_entry.wts e' = rw_entry.wts e"
    "rw_entry.rts e' = rw_entry.rts e" "is_read e' = is_read e" "slot_of e' = slot_of e"
    "rw_entry_is_read e' = rw_entry_is_read e" "rw_entry_is_write e' = rw_entry_is_write e"
  using assms
  by (auto simp: entry_installed_def slot_of_def rw_entry_is_read_def rw_entry_is_write_def)

lemma entry_installed_Some:
  "entry_installed e e' \<Longrightarrow> tuple_ts e = Some p \<Longrightarrow> e' = e"
  by (auto simp: entry_installed_def)

lemma entry_installed_trans:
  "entry_installed e e' \<Longrightarrow> entry_installed e' e'' \<Longrightarrow> entry_installed e e''"
  by (auto simp: entry_installed_def)

lemma list_all2_entry_installed_refl: "list_all2 entry_installed es es"
  by (simp add: list_all2_refl entry_installed_refl)

lemma list_all2_entry_installed_update:
  assumes "entry_installed (es ! i) e'"
  shows "list_all2 entry_installed es (es[i := e'])"
proof (cases "i < length es")
  case True
  have "list_all2 entry_installed (es[i := es ! i]) (es[i := e'])"
    by (rule list_all2_update_cong [OF list_all2_entry_installed_refl assms])
  then show ?thesis by simp
next
  case False
  then show ?thesis by (simp add: list_all2_entry_installed_refl list_update_beyond)
qed

lemma list_all2_entry_installed_trans:
  "list_all2 entry_installed es es' \<Longrightarrow> list_all2 entry_installed es' es''
     \<Longrightarrow> list_all2 entry_installed es es''"
  by (rule list_all2_trans [of entry_installed entry_installed entry_installed])
     (auto intro: entry_installed_trans)

lemma slot_of_update:
  "slot_of e' = slot_of (es ! i) \<Longrightarrow> slot_of (es[i := e'] ! j) = slot_of (es ! j)"
  by (cases "i < length es"; cases "i = j") (simp_all add: list_update_beyond)

lemma rw_entry_iceberg_insert_entry:
  assumes "rw_entry_iceberg_insert env e w = (n, e', w')"
  shows "e' = (if tuple_ts e \<noteq> None then e
               else e\<lparr>tuple_ts := Some (key e),
                      need_to_keep_key := (need_to_keep_key e \<or> n)\<rparr>)"
  using assms
  by (auto simp: rw_entry_iceberg_insert_def Let_def split: if_splits prod.splits)

lemma rw_entry_iceberg_insert_props:
  assumes "rw_entry_iceberg_insert env e w = (n, e', w')"
  shows "entry_installed e e'" "tuple_ts e' = Some (slot_of e)"
    "trace w' = trace w" "sched w' = sched w"
proof -
  show "entry_installed e e'"
    unfolding entry_installed_def rw_entry_iceberg_insert_entry [OF assms]
    by (cases "tuple_ts e") auto
  show "tuple_ts e' = Some (slot_of e)"
    unfolding rw_entry_iceberg_insert_entry [OF assms]
    by (cases "tuple_ts e") (simp_all add: slot_of_def)
  show "trace w' = trace w" "sched w' = sched w"
    using assms
    by (auto simp: rw_entry_iceberg_insert_def Let_def
        iceberg_insert_and_get_def iceberg_insert_and_get_without_increasing_refcount_def
        split: if_splits option.splits prod.splits)
qed

lemma rw_entry_try_lock_trace:
  assumes "rw_entry_try_lock e w = Inr (ok, w')"
  shows "trace w' = trace w @ [Try_lock (slot_of e) ok]" "tuple_ts e = Some (slot_of e)"
  using assms trace_try_lock_slot [of "slot_of e" w]
  by (auto simp: rw_entry_try_lock_def slot_of_def emit_def split: option.splits prod.splits)

lemma rw_entry_unlock_trace:
  assumes "rw_entry_unlock e w = Inr w'"
  shows "trace w' = trace w @ [Unlock (slot_of e)]" "tuple_ts e = Some (slot_of e)"
  using assms
  by (auto simp: rw_entry_unlock_def slot_of_def emit_def trace_unlock_slot split: option.splits)

lemma unlock_all_trace:
  "unlock_all es acq w = Inr w' \<Longrightarrow>
     trace w' = trace w @ map (\<lambda>i. Unlock (slot_of (es ! i))) acq"
proof (induction acq arbitrary: w)
  case Nil
  then show ?case by simp
next
  case (Cons i acq)
  from Cons.prems obtain w1 where u: "rw_entry_unlock (es ! i) w = Inr w1"
    and r: "unlock_all es acq w1 = Inr w'"
    by (auto split: sum.splits)
  show ?case using Cons.IH [OF r] rw_entry_unlock_trace(1) [OF u] by simp
qed

lemma lock_pass_step:
  "install_for_lock env (es ! i) w = (entry, w1) \<Longrightarrow>
     lock_pass env acq (i # rest) es w =
       (case rw_entry_try_lock entry w1 of
          Inl err \<Rightarrow> Inl err
        | Inr (locked, w2) \<Rightarrow>
            if locked then lock_pass env (acq @ [i]) rest (es[i := entry]) w2
            else (case unlock_all (es[i := entry]) acq w2 of
                    Inl err \<Rightarrow> Inl err
                  | Inr w3 \<Rightarrow> Inr (False, es[i := entry], platform_sleep_ns 1000 w3)))"
  by (simp add: Let_def)

lemma install_for_lock_props:
  assumes "install_for_lock env e w = (e', w')"
  shows "entry_installed e e'" "tuple_ts e' = Some (slot_of e)"
    "trace w' = trace w" "sched w' = sched w"
  using assms rw_entry_iceberg_insert_props [of env e w]
  by (auto simp: install_for_lock_def entry_installed_refl slot_of_def
      split: if_splits prod.splits)

lemma failed_pass_events_Suc:
  "Try_lock (slot_of (es ! i)) True # failed_pass_events es (acq @ [i]) rest k
     = failed_pass_events es acq (i # rest) (Suc k)"
  by (simp add: failed_pass_events_def)

lemma failed_pass_events_slot:
  "(\<And>j. slot_of (es' ! j) = slot_of (es ! j)) \<Longrightarrow>
     failed_pass_events es' acq todo k = failed_pass_events es acq todo k"
  by (simp add: failed_pass_events_def)

lemma lock_pass_props:
  "lock_pass env acq todo es w = Inr (ok, es', w') \<Longrightarrow>
     list_all2 entry_installed es es'
     \<and> (if ok then trace w' = trace w @ map (\<lambda>i. Try_lock (slot_of (es ! i)) True) todo
         else \<exists>k<length todo. trace w' = trace w @ failed_pass_events es acq todo k)"
proof (induction todo arbitrary: acq es w)
  case Nil
  then show ?case by (auto simp: list_all2_entry_installed_refl)
next
  case (Cons i rest)
  obtain entry w1 where ew: "install_for_lock env (es ! i) w = (entry, w1)"
    by (cases "install_for_lock env (es ! i) w")
  note step = lock_pass_step [OF ew, of acq rest]
  have inst: "entry_installed (es ! i) entry" and tr1: "trace w1 = trace w"
    using install_for_lock_props [OF ew] by simp_all
  have slot: "\<And>j. slot_of (es[i := entry] ! j) = slot_of (es ! j)"
    using slot_of_update [OF entry_installed_fields(6) [OF inst]] .
  have all1: "list_all2 entry_installed es (es[i := entry])"
    by (rule list_all2_entry_installed_update [OF inst])
  from Cons.prems obtain locked w2 where tl: "rw_entry_try_lock entry w1 = Inr (locked, w2)"
    unfolding step by (cases "rw_entry_try_lock entry w1") auto
  have t2: "trace w2 = trace w @ [Try_lock (slot_of (es ! i)) locked]"
    using rw_entry_try_lock_trace(1) [OF tl] tr1 entry_installed_fields(6) [OF inst]
    by simp
  show ?case
  proof (cases locked)
    case True
    with Cons.prems tl
    have r: "lock_pass env (acq @ [i]) rest (es[i := entry]) w2 = Inr (ok, es', w')"
      unfolding step by simp
    note ih = Cons.IH [OF r]
    have a: "list_all2 entry_installed es es'"
      using all1 ih by (blast intro: list_all2_entry_installed_trans)
    show ?thesis
    proof (cases ok)
      case ok: True
      with ih have "trace w' = trace w2
          @ map (\<lambda>i. Try_lock (slot_of (es ! i)) True) rest"
        by (simp add: slot)
      with a ok t2 True show ?thesis by simp
    next
      case nok: False
      with ih obtain k where k: "k < length rest"
        and tr: "trace w' = trace w2 @ failed_pass_events es (acq @ [i]) rest k"
        by (auto simp: failed_pass_events_slot [OF slot])
      have "trace w' = trace w @ failed_pass_events es acq (i # rest) (Suc k)"
        using tr t2 True by (simp add: failed_pass_events_Suc [symmetric])
      moreover have "Suc k < length (i # rest)" using k by simp
      ultimately show ?thesis using a nok by auto
    qed
  next
    case False
    with Cons.prems tl obtain w3 where u: "unlock_all (es[i := entry]) acq w2 = Inr w3"
      and w': "w' = platform_sleep_ns 1000 w3" and ok: "\<not> ok" and es': "es' = es[i := entry]"
      unfolding step by (auto split: sum.splits)
    have "trace w' = trace w @ failed_pass_events es acq (i # rest) 0"
      using unlock_all_trace [OF u] t2 False w'
      by (simp add: platform_sleep_ns_def emit_def slot failed_pass_events_def)
    then show ?thesis using ok es' all1 by auto
  qed
qed

lemma nth_beyond: "length xs = length ys \<Longrightarrow> length xs \<le> j \<Longrightarrow> xs ! j = ys ! j"
proof (induction xs ys arbitrary: j rule: list_induct2)
  case Nil
  show ?case by simp
next
  case (Cons x xs y ys)
  then obtain k where "j = Suc k" by (cases j) auto
  with Cons show ?case by simp
qed

lemma lock_write_set_props:
  "lock_write_set fuel env ws es w = Some (Inr (es', w')) \<Longrightarrow>
     list_all2 entry_installed es es'
     \<and> (\<exists>ks. (\<forall>k\<in>set ks. k < length ws) \<and> length ks < fuel
           \<and> trace w' = trace w
               @ concat (map (failed_pass_events es [] ws) ks)
               @ map (\<lambda>i. Try_lock (slot_of (es ! i)) True) ws)"
proof (induction fuel arbitrary: es w)
  case 0
  then show ?case by simp
next
  case (Suc n)
  from Suc.prems obtain ok es1 w1 where lp: "lock_pass env [] ws es w = Inr (ok, es1, w1)"
    by (auto split: sum.splits)
  note pp = lock_pass_props [OF lp]
  show ?case
  proof (cases ok)
    case True
    with Suc.prems lp have "es' = es1" "w' = w1" by simp_all
    with pp True have "list_all2 entry_installed es es'"
      and "trace w' = trace w @ concat (map (failed_pass_events es [] ws) [])
            @ map (\<lambda>i. Try_lock (slot_of (es ! i)) True) ws"
      by simp_all
    moreover have "\<forall>k\<in>set []. k < length ws" "length ([] :: nat list) < Suc n" by simp_all
    ultimately show ?thesis by blast
  next
    case False
    with Suc.prems lp have r: "lock_write_set n env ws es1 w1 = Some (Inr (es', w'))" by simp
    from pp False obtain k where k: "k < length ws"
      and t1: "trace w1 = trace w @ failed_pass_events es [] ws k" by auto
    have all1: "list_all2 entry_installed es es1" using pp by simp
    have slot: "\<And>j. slot_of (es1 ! j) = slot_of (es ! j)"
    proof -
      fix j
      show "slot_of (es1 ! j) = slot_of (es ! j)"
      proof (cases "j < length es")
        case True
        then show ?thesis
          using list_all2_nthD [OF all1 True] entry_installed_fields(6) by simp
      next
        case False
        have "length es1 = length es" using all1 by (simp add: list_all2_lengthD)
        then have "es1 ! j = es ! j" using False
          by (intro nth_beyond) simp_all
        then show ?thesis by simp
      qed
    qed
    from Suc.IH [OF r] obtain ks where ks: "\<forall>k\<in>set ks. k < length ws" "length ks < n"
      and t': "trace w' = trace w1 @ concat (map (failed_pass_events es [] ws) ks)
               @ map (\<lambda>i. Try_lock (slot_of (es ! i)) True) ws"
      and all2: "list_all2 entry_installed es1 es'"
      by (auto simp: slot failed_pass_events_slot [OF slot])
    have "\<forall>k\<in>set (k # ks). k < length ws" "length (k # ks) < Suc n" using k ks by simp_all
    moreover have "trace w' = trace w @ concat (map (failed_pass_events es [] ws) (k # ks))
               @ map (\<lambda>i. Try_lock (slot_of (es ! i)) True) ws"
      using t' t1 by simp
    ultimately show ?thesis
      using list_all2_entry_installed_trans [OF all1 all2] by blast
  qed
qed

lemma lock_pass_others:
  "lock_pass env acq todo es w = Inr (ok, es', w') \<Longrightarrow> j \<notin> set todo \<Longrightarrow> es' ! j = es ! j"
proof (induction todo arbitrary: acq es w)
  case Nil
  then show ?case by simp
next
  case (Cons i rest)
  obtain entry w1 where ew: "install_for_lock env (es ! i) w = (entry, w1)"
    by (cases "install_for_lock env (es ! i) w")
  note step = lock_pass_step [OF ew, of acq rest]
  from Cons.prems(2) have ne: "i \<noteq> j" and nr: "j \<notin> set rest" by auto
  from Cons.prems(1) obtain locked w2 where tl: "rw_entry_try_lock entry w1 = Inr (locked, w2)"
    unfolding step by (cases "rw_entry_try_lock entry w1") auto
  show ?case
  proof (cases locked)
    case True
    with Cons.prems(1) tl
    have r: "lock_pass env (acq @ [i]) rest (es[i := entry]) w2 = Inr (ok, es', w')"
      unfolding step by simp
    from Cons.IH [OF r nr] ne show ?thesis by simp
  next
    case False
    with Cons.prems(1) tl have "es' = es[i := entry]"
      unfolding step by (auto split: sum.splits)
    with ne show ?thesis by simp
  qed
qed

lemma lock_write_set_others:
  "lock_write_set fuel env ws es w = Some (Inr (es', w')) \<Longrightarrow> j \<notin> set ws \<Longrightarrow> es' ! j = es ! j"
proof (induction fuel arbitrary: es w)
  case 0
  then show ?case by simp
next
  case (Suc n)
  from Suc.prems(1) obtain ok es1 w1 where lp: "lock_pass env [] ws es w = Inr (ok, es1, w1)"
    by (auto split: sum.splits)
  note o1 = lock_pass_others [OF lp Suc.prems(2)]
  show ?case
  proof (cases ok)
    case True
    with Suc.prems(1) lp have "es' = es1" by simp
    with o1 show ?thesis by simp
  next
    case False
    with Suc.prems(1) lp have r: "lock_write_set n env ws es1 w1 = Some (Inr (es', w'))" by simp
    from Suc.IH [OF r Suc.prems(2)] o1 show ?thesis by simp
  qed
qed

section \<open>Read validation\<close>

lemma trace_load_lock_bit_if: "trace (snd (load_lock_bit_if c p w)) = trace w"
  using trace_load [of p w] by (simp add: load_lock_bit_if_def case_prod_beta)

lemma validate_read_props:
  "validate_read c r p w = (ab, obs, w') \<Longrightarrow>
     (ab \<longleftrightarrow> (\<exists>ob\<in>set obs. abort_condition c r ob)) \<and> obs \<noteq> [] \<and> trace w' = trace w"
proof (induction c r p w arbitrary: ab obs w' rule: validate_read.induct)
  case (1 c r p w)
  obtain v1 w1 where l: "load p w = (v1, w1)" by (cases "load p w")
  obtain seen w2 where s: "load_lock_bit_if (timestamp_set_get_rts v1 \<le> c) p w1 = (seen, w2)"
    by (cases "load_lock_bit_if (timestamp_set_get_rts v1 \<le> c) p w1")
  obtain ok w3 where cs:
    "timestamp_set_compare_and_swap p v1 (rts_extension c v1) w2 = (ok, w3)"
    by (cases "timestamp_set_compare_and_swap p v1 (rts_extension c v1) w2")
  have t1: "trace w1 = trace w" using trace_load [of p w] l by simp
  have t2: "trace w2 = trace w"
    using trace_load_lock_bit_if [of "timestamp_set_get_rts v1 \<le> c" p w1] s t1 by simp
  have t3: "trace w3 = trace w"
    using trace_cas [of p v1 "rts_extension c v1" w2] cs t2 by simp
  note unfold = validate_read.simps [of c r p w]
  show ?case
  proof (cases "abort_condition c r (v1, seen)")
    case True
    then have "validate_read c r p w = (True, [(v1, seen)], w2)"
      unfolding unfold using l s by (auto simp: abort_condition_def)
    with "1.prems" True t2 show ?thesis by auto
  next
    case na: False
    show ?thesis
    proof (cases "timestamp_set_get_rts v1 \<le> c")
      case ext: True
      show ?thesis
      proof (cases ok)
        case True
        then have "validate_read c r p w = (False, [(v1, seen)], w3)"
          unfolding unfold using l s cs na ext by (auto simp: abort_condition_def)
        with "1.prems" na t3 show ?thesis by auto
      next
        case False
        obtain ab' obs' w4 where rec: "validate_read c r p w3 = (ab', obs', w4)"
          by (cases "validate_read c r p w3")
        have eq: "validate_read c r p w = (ab', (v1, seen) # obs', w4)"
          unfolding unfold using l s cs na ext False rec by (auto simp: abort_condition_def)
        have ih: "(ab' \<longleftrightarrow> (\<exists>ob\<in>set obs'. abort_condition c r ob)) \<and> obs' \<noteq> []
            \<and> trace w4 = trace w3"
          using na ext False
          by (intro "1.IH" [OF l [symmetric] refl refl refl s [symmetric] refl refl _ _
                cs [symmetric] refl _ rec])
             (auto simp: abort_condition_def)
        with "1.prems" eq na t3 show ?thesis by auto
      qed
    next
      case False
      then have "validate_read c r p w = (False, [(v1, seen)], w2)"
        unfolding unfold using l s na by (auto simp: abort_condition_def)
      with "1.prems" na t2 show ?thesis by auto
    qed
  qed
qed


lemma validate_read_set_props:
  "validate_read_set c es rs w = Inr (ab, log, w') \<Longrightarrow>
     (ab \<longleftrightarrow> (\<exists>(i, obs)\<in>set log. \<exists>ob\<in>set obs. abort_condition c (es ! i) ob))
     \<and> (\<forall>(i, obs)\<in>set log.
           i \<in> set rs \<and> rw_entry_is_read (es ! i) \<and> rw_entry.rts (es ! i) < c \<and> obs \<noteq> [])
     \<and> trace w' = trace w"
proof (induction rs arbitrary: w ab log w')
  case Nil
  then show ?case by simp
next
  case (Cons i rs)
  from Cons.prems have rd: "rw_entry_is_read (es ! i)"
    by (auto simp: Let_def split: if_splits)
  show ?case
  proof (cases "rw_entry.rts (es ! i) < c")
    case False
    with Cons.prems rd have "validate_read_set c es rs w = Inr (ab, log, w')"
      by (simp add: Let_def)
    from Cons.IH [OF this] show ?thesis by auto
  next
    case True
    with Cons.prems rd obtain p where p: "tuple_ts (es ! i) = Some p"
      by (cases "tuple_ts (es ! i)") (auto simp: Let_def)
    obtain ab1 obs w1 where v: "validate_read c (es ! i) p w = (ab1, obs, w1)"
      by (cases "validate_read c (es ! i) p w")
    note vp = validate_read_props [OF v]
    show ?thesis
    proof (cases ab1)
      case ab1: True
      with Cons.prems rd True p v have "ab" "log = [(i, obs)]" "w' = w1"
        by (auto simp: Let_def)
      with vp ab1 rd True show ?thesis by auto
    next
      case nab: False
      with Cons.prems rd True p v obtain log' where
        r: "validate_read_set c es rs w1 = Inr (ab, log', w')" and lg: "log = (i, obs) # log'"
        by (auto simp: Let_def split: sum.splits)
      from Cons.IH [OF r] vp nab rd True lg show ?thesis by auto
    qed
  qed
qed

















lemma commit_partition_sets:
  assumes "commit_partition env es 0 ([], [], 0) = (rs, ws0, c0)"
  shows "rs = filter (\<lambda>j. rw_entry_is_read (es ! j)) [0..<length es]"
    and "ws0 = filter (\<lambda>j. rw_entry_is_write (es ! j)) [0..<length es]"
    and "c0 = Max (insert 0 (read_bound env ` {e \<in> set es. rw_entry_is_read e}))"
  using assms unfolding commit_partition_eq
  by (simp_all add: enumerate_filter_nth)

section \<open>Runs of commit\<close>

lemma set_sort_insert: "set (sort_insert cmp x xs) = insert x (set xs)"
  by (induction xs) auto

lemma distinct_sort_insert: "distinct (sort_insert cmp x xs) \<longleftrightarrow> x \<notin> set xs \<and> distinct xs"
  by (induction xs) (auto simp: set_sort_insert)

lemma length_sort_insert: "length (sort_insert cmp x xs) = Suc (length xs)"
  by (induction xs) auto

lemma set_platform_sort_slow: "set (platform_sort_slow cmp xs) = set xs"
  unfolding platform_sort_slow_def by (induction xs) (auto simp: set_sort_insert)

lemma distinct_platform_sort_slow: "distinct (platform_sort_slow cmp xs) \<longleftrightarrow> distinct xs"
  unfolding platform_sort_slow_def
  by (induction xs) (auto simp: distinct_sort_insert set_platform_sort_slow [unfolded platform_sort_slow_def])

lemma length_platform_sort_slow: "length (platform_sort_slow cmp xs) = length xs"
  unfolding platform_sort_slow_def by (induction xs) (auto simp: length_sort_insert)


lemma funpow_shift: "(f ^^ m) ((f ^^ n) x) = (f ^^ (m + n)) x"
  by (simp add: funpow_add)


lemma raise_commit_ts_tuple_ts:
  "raise_commit_ts es ws c w = Inr (c', loaded, w') \<Longrightarrow> i \<in> set ws \<Longrightarrow> tuple_ts (es ! i) \<noteq> None"
proof (induction ws arbitrary: c w c' loaded)
  case Nil
  then show ?case by simp
next
  case (Cons j ws)
  from Cons.prems obtain p where p: "tuple_ts (es ! j) = Some p"
    by (cases "tuple_ts (es ! j)") simp_all
  from Cons.prems p obtain c1 l' w1 where
    r: "raise_commit_ts es ws c1 w1 = Inr (c', l', w')"
    by (auto simp: load_env_step split: sum.splits)
  from Cons.IH [OF r] Cons.prems(2) p show ?case by auto
qed


text \<open>What a run of commit that returns went through.\<close>

lemma commit_run_facts:
  assumes "transactional_splinterdb_commit fuel env txn w = Some (Inr run)"
  obtains c0 w2 where
    "run_read_set run
       = filter (\<lambda>j. rw_entry_is_read (rw_entries txn ! j)) [0..<length (rw_entries txn)]"
    "run_write_set run
       = platform_sort_slow
           (\<lambda>i j. rw_entry_key_compare env (rw_entries txn ! i) (rw_entries txn ! j))
           (filter (\<lambda>j. rw_entry_is_write (rw_entries txn ! j)) [0..<length (rw_entries txn)])"
    "c0 = Max (insert 0 (read_bound env ` {e \<in> set (rw_entries txn). rw_entry_is_read e}))"
    "lock_write_set fuel env (run_write_set run) (rw_entries txn) w
       = Some (Inr (run_entries run, after_locking run))"
    "raise_commit_ts (run_entries run) (run_write_set run) c0 (after_locking run)
       = Inr (run_commit_ts run, run_loaded run, w2)"
    "validate_read_set (run_commit_ts run) (run_entries run) (run_read_set run) w2
       = Inr (run_is_abort run, run_observations run, after_validation run)"
    "(if \<not> run_is_abort run
      then apply_writes env (run_commit_ts run) (run_entries run) (run_write_set run)
             (after_validation run)
      else unlock_all (run_entries run) (run_write_set run) (after_validation run))
       = Inr (before_teardown run)"
    "final_world run = transaction_deinit env (run_entries run) (before_teardown run)"
    "commit_rc run = (if run_is_abort run then - 1 else 0)"
proof -
  from assms obtain rs ws0 c0 es1 w1 where
    part: "commit_partition env (rw_entries txn) 0 ([], [], 0) = (rs, ws0, c0)"
    and lock: "lock_write_set fuel env
       (platform_sort_slow
          (\<lambda>i j. rw_entry_key_compare env (rw_entries txn ! i) (rw_entries txn ! j)) ws0)
       (rw_entries txn) w = Some (Inr (es1, w1))"
    and locked: "commit_locked env rs
       (platform_sort_slow
          (\<lambda>i j. rw_entry_key_compare env (rw_entries txn ! i) (rw_entries txn ! j)) ws0)
       c0 es1 w1 = Inr run"
    by (rule commit_SomeD)
  from locked obtain c loaded w2 ab log w3 w4 where
    rs: "raise_commit_ts es1
       (platform_sort_slow
          (\<lambda>i j. rw_entry_key_compare env (rw_entries txn ! i) (rw_entries txn ! j)) ws0)
       c0 w1 = Inr (c, loaded, w2)"
    and val: "validate_read_set c es1 rs w2 = Inr (ab, log, w3)"
    and fin: "(if \<not> ab then apply_writes env c es1
       (platform_sort_slow
          (\<lambda>i j. rw_entry_key_compare env (rw_entries txn ! i) (rw_entries txn ! j)) ws0) w3
       else unlock_all es1
       (platform_sort_slow
          (\<lambda>i j. rw_entry_key_compare env (rw_entries txn ! i) (rw_entries txn ! j)) ws0) w3)
       = Inr w4"
    and run: "run = \<lparr>commit_rc = - 1 * (if ab then 1 else 0),
            run_read_set = rs, run_write_set = platform_sort_slow
          (\<lambda>i j. rw_entry_key_compare env (rw_entries txn ! i) (rw_entries txn ! j)) ws0,
            run_entries = es1, run_commit_ts = c,
            run_loaded = loaded, run_is_abort = ab,
            run_observations = log,
            after_locking = w1, after_validation = w3, before_teardown = w4,
            final_world = transaction_deinit env es1 w4\<rparr>"
    by (rule commit_locked_InrD)
  note sets = commit_partition_sets [OF part]
  note lock' = lock [unfolded sets(2)]
  note rs' = rs [unfolded sets(2)]
  note val' = val [unfolded sets(1)]
  note fin' = fin [unfolded sets(2)]
  note run' = run [unfolded sets(1,2)]
  show ?thesis
  proof (rule that [of c0 w2])
    show "c0 = Max (insert 0 (read_bound env ` {e \<in> set (rw_entries txn). rw_entry_is_read e}))"
      by (rule sets(3))
  qed (use lock' rs' val' fin' in \<open>simp_all add: run' split: if_splits\<close>)
qed

lemma write_set_facts:
  assumes "transactional_splinterdb_commit fuel env txn w = Some (Inr run)"
  shows "set (run_write_set run)
       = {i. i < length (rw_entries txn) \<and> rw_entry_is_write (rw_entries txn ! i)}"
    and "distinct (run_write_set run)"
    and "list_all2 entry_installed (rw_entries txn) (run_entries run)"
proof -
  from assms obtain c0 w2 where
    ws: "run_write_set run
       = platform_sort_slow
           (\<lambda>i j. rw_entry_key_compare env (rw_entries txn ! i) (rw_entries txn ! j))
           (filter (\<lambda>j. rw_entry_is_write (rw_entries txn ! j)) [0..<length (rw_entries txn)])"
    and lock: "lock_write_set fuel env (run_write_set run) (rw_entries txn) w
       = Some (Inr (run_entries run, after_locking run))"
    by (rule commit_run_facts)
  show "set (run_write_set run)
       = {i. i < length (rw_entries txn) \<and> rw_entry_is_write (rw_entries txn ! i)}"
    unfolding ws set_platform_sort_slow by auto
  show "distinct (run_write_set run)"
    unfolding ws distinct_platform_sort_slow by simp
  show "list_all2 entry_installed (rw_entries txn) (run_entries run)"
    using lock_write_set_props [OF lock] by simp
qed

section \<open>Releasing the locks and applying the writes\<close>

lemma unlock_slot_linearizes: "\<exists>n. unlock_slot p w = clear_lock_bit p ((env_step ^^ n) w)"
proof (induction p w rule: unlock_slot.induct)
  case (1 p w)
  define w1 where "w1 = env_step w"
  define v1 where "v1 = ts_mem w1 p"
  define w2 where "w2 = env_step w1"
  have l: "load p w = (v1, w1)" by (simp add: load_env_step w1_def v1_def)
  show ?case
  proof (cases "ts_mem w2 p = v1")
    case True
    then have c: "timestamp_set_compare_and_swap p v1 (v1\<lparr>lock_bit := False\<rparr>) w1
        = (True, w2\<lparr>ts_mem := (ts_mem w2)(p := v1\<lparr>lock_bit := False\<rparr>)\<rparr>)"
      by (simp add: timestamp_set_compare_and_swap_def Let_def w2_def)
    have "unlock_slot p w = clear_lock_bit p w2"
      by (subst unlock_slot.simps) (simp add: l c clear_lock_bit_def True)
    also have "w2 = (env_step ^^ 2) w" by (simp add: w2_def w1_def numeral_2_eq_2)
    finally show ?thesis by blast
  next
    case False
    then have c: "timestamp_set_compare_and_swap p v1 (v1\<lparr>lock_bit := False\<rparr>) w1 = (False, w2)"
      by (simp add: timestamp_set_compare_and_swap_def Let_def w2_def)
    from "1.IH" [OF l [symmetric] refl c [symmetric] refl]
    obtain n where n: "unlock_slot p w2 = clear_lock_bit p ((env_step ^^ n) w2)" by auto
    have "unlock_slot p w = unlock_slot p w2"
      by (subst unlock_slot.simps) (simp add: l c)
    also note n
    also have "(env_step ^^ n) w2 = (env_step ^^ (n + 2)) w"
    proof -
      have two: "w2 = (env_step ^^ 2) w" by (simp add: w2_def w1_def numeral_2_eq_2)
      show ?thesis unfolding two funpow_add by (simp only: o_apply)
    qed
    finally show ?thesis by blast
  qed
qed

lemma unlock_all_releases:
  "unlock_all es ws w = Inr w' \<Longrightarrow>
     \<exists>ns. length ns = length ws
        \<and> w' = fold release_step (zip (map (\<lambda>i. slot_of (es ! i)) ws) ns) w"
proof (induction ws arbitrary: w)
  case Nil
  then show ?case by simp
next
  case (Cons i ws)
  from Cons.prems obtain w1 where u: "rw_entry_unlock (es ! i) w = Inr w1"
    and r: "unlock_all es ws w1 = Inr w'"
    by (auto split: sum.splits)
  from u obtain p where p: "tuple_ts (es ! i) = Some p" and w1: "w1 = emit (Unlock p) (unlock_slot p w)"
    by (auto simp: rw_entry_unlock_def split: option.splits)
  from unlock_slot_linearizes [of p w] obtain n where
    n: "unlock_slot p w = clear_lock_bit p ((env_step ^^ n) w)" by blast
  have s: "slot_of (es ! i) = p" using p by (simp add: slot_of_def)
  have w1': "w1 = release_step (slot_of (es ! i), n) w"
    by (simp add: release_step_def w1 n s)
  from Cons.IH [OF r] obtain ns where ns: "length ns = length ws"
    and w': "w' = fold release_step (zip (map (\<lambda>i. slot_of (es ! i)) ws) ns) w1"
    by blast
  have "length (n # ns) = length (i # ws)" using ns by simp
  moreover have "w' = fold release_step (zip (map (\<lambda>i. slot_of (es ! i)) (i # ws)) (n # ns)) w"
    using w' w1' by simp
  ultimately show ?case by blast
qed

lemma unlock_all_quiet:
  "sched w = [] \<Longrightarrow> unlock_all es ws w = Inr w' \<Longrightarrow>
     sched w' = []
     \<and> ts_mem w' = (\<lambda>p. if p \<in> (\<lambda>i. slot_of (es ! i)) ` set ws
                          then (ts_mem w p)\<lparr>lock_bit := False\<rparr> else ts_mem w p)"
proof (induction ws arbitrary: w)
  case Nil
  then show ?case by simp
next
  case (Cons i ws)
  from Cons.prems obtain w1 where u: "rw_entry_unlock (es ! i) w = Inr w1"
    and r: "unlock_all es ws w1 = Inr w'"
    by (auto split: sum.splits)
  from u obtain p where p: "tuple_ts (es ! i) = Some p" and w1: "w1 = emit (Unlock p) (unlock_slot p w)"
    by (auto simp: rw_entry_unlock_def split: option.splits)
  have s: "slot_of (es ! i) = p" using p by (simp add: slot_of_def)
  have q1: "sched w1 = []" and m1: "ts_mem w1 = (ts_mem w)(p := (ts_mem w p)\<lparr>lock_bit := False\<rparr>)"
    using Cons.prems(1) by (simp_all add: w1 emit_def unlock_slot_quiet)
  from Cons.IH [OF q1 r] show ?case
    by (auto simp: m1 s fun_eq_iff)
qed

lemma no_calls_failed_pass:
  "filter is_splinterdb_call (failed_pass_events es acq todo k) = []"
  by (simp add: failed_pass_events_def is_splinterdb_call_def)

lemma no_calls_concat_failed_pass:
  "filter is_splinterdb_call (concat (map (failed_pass_events es acq todo) ks)) = []"
  by (induction ks) (simp_all add: no_calls_failed_pass)

lemma trace_raise_commit_ts:
  "raise_commit_ts es ws c w = Inr (c', loaded, w') \<Longrightarrow> trace w' = trace w"
proof (induction ws arbitrary: c w c' loaded)
  case Nil
  then show ?case by simp
next
  case (Cons i ws)
  from Cons.prems obtain p where p: "tuple_ts (es ! i) = Some p"
    by (cases "tuple_ts (es ! i)") simp_all
  obtain v w1 where l: "load p w = (v, w1)" by (cases "load p w")
  from Cons.prems p l obtain l' where
    r: "raise_commit_ts es ws (max c (timestamp_set_get_rts v + 1)) w1 = Inr (c', l', w')"
    by (auto split: sum.splits)
  from Cons.IH [OF r] trace_load [of p w] l show ?case by simp
qed

lemma trace_rw_entry_iceberg_remove: "trace (rw_entry_iceberg_remove env e w) = trace w"
  by (simp add: rw_entry_iceberg_remove_def iceberg_get_and_remove_def
      split: option.splits)

lemma trace_transaction_deinit: "trace (transaction_deinit env es w) = trace w"
  unfolding transaction_deinit_def
  by (induction es arbitrary: w) (simp_all add: trace_rw_entry_iceberg_remove)

lemma release_step_word:
  "timestamp_set.wts (ts_mem (release_step (p, n) w) q)
      = timestamp_set.wts (ts_mem ((env_step ^^ n) w) q)
   \<and> delta (ts_mem (release_step (p, n) w) q) = delta (ts_mem ((env_step ^^ n) w) q)
   \<and> \<not> lock_bit (ts_mem (release_step (p, n) w) p)
   \<and> (q \<noteq> p \<longrightarrow> ts_mem (release_step (p, n) w) q = ts_mem ((env_step ^^ n) w) q)"
  by (simp add: release_step_def clear_lock_bit_def emit_def)

lemma slot_of_run_entries:
  assumes "transactional_splinterdb_commit fuel env txn w = Some (Inr run)"
    and "i \<in> set (run_write_set run)"
  shows "slot_of (run_entries run ! i) = slot_of (rw_entries txn ! i)"
    and "i < length (rw_entries txn)"
proof -
  note wsf = write_set_facts [OF assms(1)]
  from assms(2) wsf(1) show r: "i < length (rw_entries txn)" by simp
  from list_all2_nthD [OF wsf(3) r] show "slot_of (run_entries run ! i) = slot_of (rw_entries txn ! i)"
    by (rule entry_installed_fields(6))
qed

lemma apply_to_splinterdb_props:
  assumes "apply_to_splinterdb env e m w = (rc, w1)" and "msg e = Some m"
  shows "trace w1 = trace w @ apply_events env e" "sched w1 = sched w" "ts_mem w1 = ts_mem w"
  using assms
  by (auto simp: apply_to_splinterdb_def apply_events_def splinterdb_call_def emit_def
      platform_sleep_ns_def Let_def split: if_splits message_type.splits prod.splits)

lemma apply_writes_Cons:
  assumes "apply_writes env c es (i # rest) w = Inr w'"
  obtains m w1 p where "msg (es ! i) = Some m" "apply_to_splinterdb env (es ! i) m w = (0, w1)"
    "tuple_ts (es ! i) = Some p"
    "apply_writes env c es rest (write_committed_word c p w1) = Inr w'"
  using assms
  by (auto simp: Let_def split: option.splits prod.splits if_splits)

lemma apply_writes_trace:
  "apply_writes env c es ws w = Inr w' \<Longrightarrow>
     trace w' = trace w @ concat (map (\<lambda>i. apply_events env (es ! i)) ws)"
proof (induction ws arbitrary: w)
  case Nil
  then show ?case by simp
next
  case (Cons i rest)
  from Cons.prems obtain m w1 p where m: "msg (es ! i) = Some m"
    and a: "apply_to_splinterdb env (es ! i) m w = (0, w1)"
    and r: "apply_writes env c es rest (write_committed_word c p w1) = Inr w'"
    by (rule apply_writes_Cons)
  from Cons.IH [OF r] apply_to_splinterdb_props(1) [OF a m] show ?case
    by (simp add: trace_write_committed_word)
qed




lemma released_Suc: "released m (released (Suc 0) c) = released (Suc m) c"
  by (cases c) (auto simp: released_def)

lemma rw_entry_iceberg_remove_eq:
  assumes "\<not> EXPERIMENTAL_MODE_KEEP_ALL_KEYS env"
  shows "rw_entry_iceberg_remove env e w =
     (if tuple_ts e = None then w
      else w\<lparr>refcount := (refcount w)(key e := released (Suc 0) (refcount w (key e)))\<rparr>)"
proof (cases "refcount w (key e)")
  case None
  then have "(refcount w)(key e := None) = refcount w" by (simp add: fun_upd_idem)
  then have "w\<lparr>refcount := (refcount w)(key e := None)\<rparr> = w" by simp
  with None assms show ?thesis
    by (simp add: rw_entry_iceberg_remove_def iceberg_get_and_remove_def released_def
        split: option.splits)
next
  case (Some n)
  with assms show ?thesis
    by (simp add: rw_entry_iceberg_remove_def iceberg_get_and_remove_def released_def
        split: option.splits)
qed

lemma transaction_deinit_Cons:
  "transaction_deinit env (e # es) w = transaction_deinit env es (rw_entry_iceberg_remove env e w)"
  by (simp add: transaction_deinit_def)

lemma transaction_deinit_refcount:
  "\<not> EXPERIMENTAL_MODE_KEEP_ALL_KEYS env \<Longrightarrow>
     transaction_deinit env es w
       = w\<lparr>refcount := (\<lambda>k. released (holders es k) (refcount w k))\<rparr>"
proof (induction es arbitrary: w)
  case Nil
  then show ?case by (simp add: transaction_deinit_def holders_def released_def)
next
  case (Cons e es)
  show ?case
  proof (cases "tuple_ts e = None")
    case True
    then have "holders (e # es) = holders es" by (simp add: holders_def fun_eq_iff)
    then show ?thesis
      using True Cons.IH [OF Cons.prems] Cons.prems
      by (simp add: transaction_deinit_Cons rw_entry_iceberg_remove_eq)
  next
    case False
    have h: "holders (e # es) k = (if key e = k then Suc (holders es k) else holders es k)" for k
      using False by (simp add: holders_def)
    have "(\<lambda>k. released (holders es k)
             (((refcount w)(key e := released (Suc 0) (refcount w (key e)))) k))
        = (\<lambda>k. released (holders (e # es) k) (refcount w k))"
      by (rule ext) (simp add: h released_Suc)
    moreover from False obtain y where "tuple_ts e = Some y" by auto
    ultimately show ?thesis
      using Cons.IH [OF Cons.prems] Cons.prems
      by (simp add: transaction_deinit_Cons rw_entry_iceberg_remove_eq)
  qed
qed

lemma transaction_deinit_keep_all_keys:
  "EXPERIMENTAL_MODE_KEEP_ALL_KEYS env \<Longrightarrow> transaction_deinit env es w = w"
  unfolding transaction_deinit_def
  by (induction es) (simp_all add: rw_entry_iceberg_remove_def split: option.splits)


section \<open>Arithmetic on the timestamp word\<close>

lemma shift_eq_and_not: "(d::64 word) - (d AND 0x7fff) = d AND NOT 0x7fff"
proof -
  have "d - (d AND 0x7fff) = d AND NOT (d AND 0x7fff)"
    by (rule disjunctive_diff) (simp add: bit_and_iff)
  also have "\<dots> = d AND NOT 0x7fff"
    by (rule bit_eqI) (auto simp: bit_and_iff bit_not_iff bit_or_iff)
  finally show ?thesis .
qed

lemma low_eq_take_bit: "(d::64 word) AND 0x7fff = take_bit 15 d"
  by (simp add: take_bit_eq_mask mask_eq_exp_minus_1)

lemma unat_low: "unat ((d::64 word) AND 0x7fff) = unat d mod 2 ^ 15"
  by (simp add: low_eq_take_bit unsigned_take_bit_eq take_bit_eq_mod unat_mod)

lemma unat_shift: "unat ((d::64 word) - (d AND 0x7fff)) = unat d - unat d mod 2 ^ 15"
proof -
  have "d AND 0x7fff \<le> d" by (rule word_and_le2)
  then show ?thesis by (simp add: unat_sub unat_low)
qed

lemma unat_ucast_48_64: "unat (ucast (w :: 48 word) :: 64 word) = unat w"
  using unsigned_less [of w, where 'a = nat]
  by (simp add: unsigned_ucast_eq take_bit_eq_mod)

lemma unat_ucast_15_64: "unat (ucast (w :: 15 word) :: 64 word) = unat w"
  using unsigned_less [of w, where 'a = nat]
  by (simp add: unsigned_ucast_eq take_bit_eq_mod)

lemma unat_ucast_15_48: "unat (ucast (w :: 15 word) :: 48 word) = unat w"
  using unsigned_less [of w, where 'a = nat]
  by (simp add: unsigned_ucast_eq take_bit_eq_mod)

lemma unat_ucast_64_48: "unat (ucast (w :: 64 word) :: 48 word) = unat w mod 2 ^ 48"
  by (simp add: unsigned_ucast_eq take_bit_eq_mod)

lemma unat_ucast_64_15: "unat (ucast (w :: 64 word) :: 15 word) = unat w mod 2 ^ 15"
  by (simp add: unsigned_ucast_eq take_bit_eq_mod)

text \<open>The read timestamp of a word is the sum of its fields modulo \<open>2^48\<close>.\<close>

lemma unat_get_rts:
  "unat (timestamp_set_get_rts v) = (unat (timestamp_set.wts v) + unat (delta v)) mod 2 ^ 48"
  by (simp add: timestamp_set_get_rts_def unat_word_ariths unat_ucast_48_64 unat_ucast_15_48)

lemma get_rts_less: "timestamp_set_get_rts v < 2 ^ 48"
proof -
  have "unat (timestamp_set_get_rts v) < 2 ^ 48" by (simp add: unat_get_rts)
  then show ?thesis by (simp add: word_less_nat_alt)
qed


lemma unat_rts_extension_fields:
  assumes le: "ucast (timestamp_set.wts v1) \<le> (c::64 word)"
  shows "unat (timestamp_set.wts (rts_extension c v1)) =
     (unat (timestamp_set.wts v1)
        + (unat c - unat (timestamp_set.wts v1)
            - (unat c - unat (timestamp_set.wts v1)) mod 2 ^ 15)) mod 2 ^ 48"
    and "unat (delta (rts_extension c v1)) = (unat c - unat (timestamp_set.wts v1)) mod 2 ^ 15"
proof -
  define d where "d = c - ucast (timestamp_set.wts v1)"
  have ud: "unat d = unat c - unat (timestamp_set.wts v1)"
    using le by (simp add: d_def unat_sub unat_ucast_48_64)
  have w: "unat (timestamp_set.wts v1 + ucast (d - (d AND 0x7fff))) =
      (unat (timestamp_set.wts v1) + (unat d - unat d mod 2 ^ 15)) mod 2 ^ 48"
    by (simp add: unat_word_ariths unat_ucast_64_48 unat_shift mod_add_right_eq)
  have dl: "unat (ucast (d - (d - (d AND 0x7fff))) :: 15 word) = unat d mod 2 ^ 15"
    by (simp add: unat_ucast_64_15 unat_low)
  show "unat (timestamp_set.wts (rts_extension c v1)) =
     (unat (timestamp_set.wts v1)
        + (unat c - unat (timestamp_set.wts v1)
            - (unat c - unat (timestamp_set.wts v1)) mod 2 ^ 15)) mod 2 ^ 48"
    unfolding rts_extension_def Let_def d_def [symmetric]
    using w by (simp add: ud)
  show "unat (delta (rts_extension c v1)) = (unat c - unat (timestamp_set.wts v1)) mod 2 ^ 15"
    unfolding rts_extension_def Let_def d_def [symmetric]
    using dl by (simp add: ud)
qed

section \<open>Scenarios\<close>

text \<open>
  Concrete runs: keys of two bytes compared bytewise, a merge function that appends the
  payloads, a key-value store that answers every call with status 0. The transaction has
  written key \<open>[2, 0]\<close> and read key \<open>[1, 0]\<close> at \<open>wts = 3\<close>, \<open>rts = 5\<close>. The slot of
  key \<open>[2, 0]\<close> holds \<open>wts = 9\<close>, so \<open>commit_ts\<close> is 10 and the read is validated. In
  \<open>changed_world\<close> another transaction has written key \<open>[1, 0]\<close> since (its \<open>wts\<close>
  is 4); in \<open>unchanged_world\<close> it has not.
\<close>

fun lex_key_compare :: "bytes \<Rightarrow> bytes \<Rightarrow> int" where
  "lex_key_compare [] [] = 0"
| "lex_key_compare [] (y # ys) = - 1"
| "lex_key_compare (x # xs) [] = 1"
| "lex_key_compare (x # xs) (y # ys) =
     (if x < y then - 1 else if y < x then 1 else lex_key_compare xs ys)"

definition append_merge :: "bytes \<Rightarrow> message \<Rightarrow> message \<Rightarrow> message" where
  "append_merge k old new =
     \<lparr>message_class = message_class old, message_data = message_data old @ message_data new\<rparr>"

definition scenario_env :: txn_env where
  "scenario_env =
     \<lparr>KEY_SIZE = 2, RW_SET_SIZE_LIMIT = 4, EXPERIMENTAL_MODE_SILO = False,
      EXPERIMENTAL_MODE_KEEP_ALL_KEYS = False, EXPERIMENTAL_MODE_BYPASS_SPLINTERDB = False,
      key_compare = lex_key_compare, merge_tuples = append_merge,
      splinterdb = (\<lambda>calls ev. (0, []))\<rparr>"

definition writer_entry :: rw_entry where
  "writer_entry =
     \<lparr>key = [2, 0], msg = Some \<lparr>message_class = MESSAGE_TYPE_INSERT, message_data = [7]\<rparr>,
      wts = 0, rts = 0, tuple_ts = None, is_read = False,
      need_to_keep_key = False, need_to_decrease_refcount = False\<rparr>"

definition reader_entry :: rw_entry where
  "reader_entry =
     \<lparr>key = [1, 0], msg = None, wts = 3, rts = 5, tuple_ts = Some [1, 0], is_read = True,
      need_to_keep_key = False, need_to_decrease_refcount = False\<rparr>"

definition scenario_txn :: transaction where
  "scenario_txn = \<lparr>rw_entries = [writer_entry, reader_entry]\<rparr>"

definition changed_world :: world where
  "changed_world =
     \<lparr>ts_mem = (\<lambda>k. zero_timestamp_set)
         ([1, 0] := \<lparr>lock_bit = False, delta = 0, wts = 4\<rparr>,
          [2, 0] := \<lparr>lock_bit = False, delta = 0, wts = 9\<rparr>),
      refcount = [[1, 0] \<mapsto> 1, [2, 0] \<mapsto> 1], sched = [], trace = []\<rparr>"

definition unchanged_world :: world where
  "unchanged_world =
     \<lparr>ts_mem = (\<lambda>k. zero_timestamp_set)
         ([1, 0] := \<lparr>lock_bit = False, delta = 2, wts = 3\<rparr>,
          [2, 0] := \<lparr>lock_bit = False, delta = 0, wts = 9\<rparr>),
      refcount = [[1, 0] \<mapsto> 1, [2, 0] \<mapsto> 1], sched = [], trace = []\<rparr>"

text \<open>
  More runs. In \<open>locked_world\<close> another transaction holds the lock of key \<open>[1, 0]\<close>. In
  \<open>racing_world\<close> the read entry has sampled \<open>wts = 2^48 - 1\<close> and \<open>rts = 0\<close> from the slot
  \<open>{delta = 1, wts = 2^48 - 1}\<close>, whose read timestamp has wrapped around to 0, and another
  thread locks the slot between the snapshot of read validation and its second look at
  the lock bit (the fifth atomic access of commit). In \<open>wrapped_world\<close> the slot of the
  written key has such a wrapped read timestamp; in \<open>full_world\<close> its \<open>wts\<close> is \<open>2^48 - 1\<close>,
  so that \<open>commit_ts\<close> is \<open>2^48\<close>.
\<close>

definition locked_world :: world where
  "locked_world =
     \<lparr>ts_mem = (\<lambda>k. zero_timestamp_set)
         ([1, 0] := \<lparr>lock_bit = True, delta = 2, wts = 3\<rparr>,
          [2, 0] := \<lparr>lock_bit = False, delta = 0, wts = 9\<rparr>),
      refcount = [[1, 0] \<mapsto> 1, [2, 0] \<mapsto> 1], sched = [], trace = []\<rparr>"

definition edge_reader_entry :: rw_entry where
  "edge_reader_entry =
     \<lparr>key = [1, 0], msg = None, wts = 281474976710655, rts = 0, tuple_ts = Some [1, 0],
      is_read = True, need_to_keep_key = False, need_to_decrease_refcount = False\<rparr>"

definition racing_txn :: transaction where
  "racing_txn = \<lparr>rw_entries = [writer_entry, edge_reader_entry]\<rparr>"

definition racing_world :: world where
  "racing_world =
     \<lparr>ts_mem = (\<lambda>k. zero_timestamp_set)
         ([1, 0] := \<lparr>lock_bit = False, delta = 1, wts = 281474976710655\<rparr>,
          [2, 0] := \<lparr>lock_bit = False, delta = 0, wts = 9\<rparr>),
      refcount = [[1, 0] \<mapsto> 1, [2, 0] \<mapsto> 1],
      sched = [[], [], [], [],
               [([1, 0], \<lparr>lock_bit = True, delta = 1, wts = 281474976710655\<rparr>)]],
      trace = []\<rparr>"

definition wrapped_world :: world where
  "wrapped_world =
     \<lparr>ts_mem = (\<lambda>k. zero_timestamp_set)
         ([1, 0] := \<lparr>lock_bit = False, delta = 2, wts = 3\<rparr>,
          [2, 0] := \<lparr>lock_bit = False, delta = 1, wts = 281474976710655\<rparr>),
      refcount = [[1, 0] \<mapsto> 1, [2, 0] \<mapsto> 1], sched = [], trace = []\<rparr>"

definition writer_txn :: transaction where
  "writer_txn = \<lparr>rw_entries = [writer_entry]\<rparr>"

definition full_world :: world where
  "full_world =
     \<lparr>ts_mem = (\<lambda>k. zero_timestamp_set)
         ([2, 0] := \<lparr>lock_bit = False, delta = 0, wts = 281474976710655\<rparr>),
      refcount = [[2, 0] \<mapsto> 1], sched = [], trace = []\<rparr>"






lemmas scenario_defs = scenario_env_def writer_entry_def reader_entry_def scenario_txn_def
  changed_world_def unchanged_world_def append_merge_def zero_timestamp_set_def
  locked_world_def edge_reader_entry_def racing_txn_def racing_world_def wrapped_world_def
  writer_txn_def full_world_def

lemmas quiet_eval = transactional_splinterdb_commit_def commit_locked_def platform_sort_slow_def
  rw_entry_key_compare_def rw_entry_is_read_def rw_entry_is_write_def read_bound_def
  install_for_lock_def rw_entry_iceberg_insert_def iceberg_insert_and_get_def
  iceberg_insert_and_get_without_increasing_refcount_def
  rw_entry_try_lock_def rw_entry_unlock_def try_lock_slot_quiet unlock_slot_quiet
  load_quiet emit_def platform_sleep_ns_def timestamp_set_get_rts_def
  validate_read_quiet rts_extension_def
  apply_to_splinterdb_def splinterdb_call_def write_committed_word_quiet committed_word_def
  transaction_deinit_def rw_entry_iceberg_remove_def iceberg_get_and_remove_def Let_def

lemma changed_commit_eval:
  "(case transactional_splinterdb_commit 1 scenario_env scenario_txn changed_world of
      Some (Inr run) \<Rightarrow>
        commit_rc run = - 1 \<and> run_is_abort run \<and> run_commit_ts run = 10
        \<and> run_read_set run = [1] \<and> run_write_set run = [0]
        \<and> run_observations run = [(1, [(\<lparr>lock_bit = False, delta = 0, wts = 4\<rparr>, Some False)])]
        \<and> run_loaded run = [\<lparr>lock_bit = True, delta = 0, wts = 9\<rparr>]
        \<and> trace (final_world run) = [Try_lock [2, 0] True, Unlock [2, 0]]
        \<and> ts_mem (before_teardown run) [2, 0] = \<lparr>lock_bit = False, delta = 0, wts = 9\<rparr>
        \<and> ts_mem (after_validation run) [2, 0] = \<lparr>lock_bit = True, delta = 0, wts = 9\<rparr>
        \<and> sched (after_validation run) = []
        \<and> refcount (before_teardown run) [1, 0] = Some 1
        \<and> refcount (before_teardown run) [2, 0] = Some 2
        \<and> refcount (final_world run) [1, 0] = None
        \<and> refcount (final_world run) [2, 0] = Some 1
        \<and> holders (run_entries run) [1, 0] = 1
        \<and> holders (run_entries run) [2, 0] = 1
    | _ \<Rightarrow> False)"
  by (simp add: scenario_defs quiet_eval holders_def split del: if_split)






section \<open>Claim C1\<close>



section \<open>Claim C2\<close>

text \<open>
  Claim C2. In the rts-extension step, with \<open>d = commit_ts - v1.wts\<close>, the shift
  \<open>d - (d & 0x7fff)\<close> of the code is \<open>d & ~0x7fff\<close>, the new \<open>wts\<close> is \<open>v1.wts + shift\<close>
  (in the 48-bit field), the new \<open>delta\<close> is \<open>d & 0x7fff\<close> and is below \<open>2^15\<close>, and the
  lock bit is kept. For a snapshot with \<open>v1.wts \<le> commit_ts\<close> the sum of the new \<open>wts\<close> and
  the new \<open>delta\<close> is \<open>commit_ts\<close> exactly when \<open>v1.wts + shift\<close> fits the 48-bit field,
  which is so whenever \<open>commit_ts < 2^48\<close>; the read timestamp that
  \<^verbatim>\<open>timestamp_set_get_rts\<close> computes from the new word is \<open>commit_ts mod 2^48\<close>, which is
  \<open>commit_ts\<close> exactly when \<open>commit_ts < 2^48\<close>.
\<close>

theorem rts_extension_reaches_commit_ts:
  assumes le: "ucast (timestamp_set.wts v1) \<le> commit_ts"
  shows "let d = commit_ts - ucast (timestamp_set.wts v1);
             shift = d AND NOT 0x7fff;
             v2 = rts_extension commit_ts v1
         in d - (d AND 0x7fff) = shift
          \<and> timestamp_set.wts v2 = timestamp_set.wts v1 + ucast shift
          \<and> delta v2 = ucast (d AND 0x7fff)
          \<and> lock_bit v2 = lock_bit v1
          \<and> unat (delta v2) < 2 ^ 15
          \<and> (unat (timestamp_set.wts v2) + unat (delta v2) = unat commit_ts
                \<longleftrightarrow> unat (timestamp_set.wts v1) + unat shift < 2 ^ 48)
          \<and> (commit_ts < 2 ^ 48
                \<longrightarrow> unat (timestamp_set.wts v2) + unat (delta v2) = unat commit_ts)
          \<and> unat (timestamp_set_get_rts v2) = unat commit_ts mod 2 ^ 48
          \<and> (timestamp_set_get_rts v2 = commit_ts \<longleftrightarrow> commit_ts < 2 ^ 48)"
proof -
  define d where "d = commit_ts - ucast (timestamp_set.wts v1)"
  define uw where "uw = unat (timestamp_set.wts v1)"
  define uc where "uc = unat commit_ts"
  have uw_le: "uw \<le> uc"
    using le by (simp add: uw_def uc_def word_le_nat_alt unat_ucast_48_64)
  have uw_lt: "uw < 2 ^ 48"
    using unsigned_less [of "timestamp_set.wts v1", where 'a = nat] by (simp add: uw_def)
  have ud: "unat d = uc - uw"
    using le by (simp add: d_def uw_def uc_def unat_sub unat_ucast_48_64)
  define S where "S = (uc - uw) - (uc - uw) mod 2 ^ 15"
  define L where "L = (uc - uw) mod 2 ^ 15"
  have ushift: "unat (d AND NOT 0x7fff) = S"
    using unat_shift [of d] by (simp add: shift_eq_and_not ud S_def)
  have f_wts: "timestamp_set.wts (rts_extension commit_ts v1)
       = timestamp_set.wts v1 + ucast (d AND NOT 0x7fff)"
    unfolding rts_extension_def Let_def d_def [symmetric] shift_eq_and_not by simp
  have f_delta: "delta (rts_extension commit_ts v1) = ucast (d AND 0x7fff)"
    unfolding rts_extension_def Let_def d_def [symmetric] by simp
  have f_lock: "lock_bit (rts_extension commit_ts v1) = lock_bit v1"
    unfolding rts_extension_def Let_def by simp
  have small: "unat (delta (rts_extension commit_ts v1)) < 2 ^ 15"
    using unsigned_less [of "delta (rts_extension commit_ts v1)", where 'a = nat] by simp
  have fields: "unat (timestamp_set.wts (rts_extension commit_ts v1)) = (uw + S) mod 2 ^ 48"
    "unat (delta (rts_extension commit_ts v1)) = L"
    using unat_rts_extension_fields [OF le] by (simp_all add: uw_def uc_def S_def L_def)
  have split: "uc = uw + S + L"
    unfolding S_def L_def
    using uw_le mod_less_eq_dividend [of "uc - uw" "2 ^ 15"] by linarith
  have iff: "unat (timestamp_set.wts (rts_extension commit_ts v1))
        + unat (delta (rts_extension commit_ts v1)) = unat commit_ts
      \<longleftrightarrow> uw + S < 2 ^ 48"
  proof
    assume "unat (timestamp_set.wts (rts_extension commit_ts v1))
        + unat (delta (rts_extension commit_ts v1)) = unat commit_ts"
    then have "(uw + S) mod 2 ^ 48 + L = uw + S + L"
      using split by (simp only: fields uc_def)
    then have "(uw + S) mod 2 ^ 48 = uw + S" by linarith
    moreover have "(uw + S) mod 2 ^ 48 < 2 ^ 48" by simp
    ultimately show "uw + S < 2 ^ 48" by linarith
  next
    assume "uw + S < 2 ^ 48"
    then have "(uw + S) mod 2 ^ 48 = uw + S" by simp
    then show "unat (timestamp_set.wts (rts_extension commit_ts v1))
        + unat (delta (rts_extension commit_ts v1)) = unat commit_ts"
      using split by (simp only: fields uc_def)
  qed
  have below: "commit_ts < 2 ^ 48
      \<longrightarrow> unat (timestamp_set.wts (rts_extension commit_ts v1))
            + unat (delta (rts_extension commit_ts v1)) = unat commit_ts"
  proof
    assume "commit_ts < 2 ^ 48"
    then have "uc < 2 ^ 48" by (simp add: uc_def word_less_nat_alt)
    then have "uw + S < 2 ^ 48" using split by linarith
    then show "unat (timestamp_set.wts (rts_extension commit_ts v1))
            + unat (delta (rts_extension commit_ts v1)) = unat commit_ts"
      using iff by simp
  qed
  have urts: "unat (timestamp_set_get_rts (rts_extension commit_ts v1)) = uc mod 2 ^ 48"
  proof -
    have "unat (timestamp_set_get_rts (rts_extension commit_ts v1))
        = ((uw + S) mod 2 ^ 48 + L) mod 2 ^ 48"
      by (simp only: unat_get_rts fields)
    also have "\<dots> = (uw + S + L) mod 2 ^ 48" by (rule mod_add_left_eq)
    finally show ?thesis using split by simp
  qed
  have rts_iff: "timestamp_set_get_rts (rts_extension commit_ts v1) = commit_ts
      \<longleftrightarrow> commit_ts < 2 ^ 48"
  proof
    assume "timestamp_set_get_rts (rts_extension commit_ts v1) = commit_ts"
    then have "uc mod 2 ^ 48 = uc" using urts by (simp only: uc_def)
    moreover have "uc mod 2 ^ 48 < 2 ^ 48" by simp
    ultimately have "uc < 2 ^ 48" by linarith
    then show "commit_ts < 2 ^ 48" by (simp add: uc_def word_less_nat_alt)
  next
    assume "commit_ts < 2 ^ 48"
    then have "uc < 2 ^ 48" by (simp add: uc_def word_less_nat_alt)
    then have "unat (timestamp_set_get_rts (rts_extension commit_ts v1)) = unat commit_ts"
      using urts by (simp add: uc_def)
    then show "timestamp_set_get_rts (rts_extension commit_ts v1) = commit_ts"
      by (simp only: word_unat_eq_iff)
  qed
  have eq: "d - (d AND 0x7fff) = d AND NOT 0x7fff" by (rule shift_eq_and_not)
  have urts': "unat (timestamp_set_get_rts (rts_extension commit_ts v1))
      = unat commit_ts mod 2 ^ 48"
    using urts by (simp only: uc_def)
  show ?thesis
    unfolding Let_def d_def [symmetric]
    using eq f_wts f_delta f_lock small iff below urts' rts_iff
    by (simp only: ushift uw_def [symmetric])
qed

theorem rts_extension_reaches_commit_ts_witness:
  "ucast (timestamp_set.wts \<lparr>lock_bit = False, delta = 0, wts = 1000\<rparr>) \<le> (41000 :: 64 word)
   \<and> (41000 :: 64 word) < 2 ^ 48
   \<and> timestamp_set.wts (rts_extension 41000 \<lparr>lock_bit = False, delta = 0, wts = 1000\<rparr>)
       = 1000 + 32768
   \<and> delta (rts_extension 41000 \<lparr>lock_bit = False, delta = 0, wts = 1000\<rparr>) = 7232
   \<and> unat (timestamp_set.wts (rts_extension 41000 \<lparr>lock_bit = False, delta = 0, wts = 1000\<rparr>))
       + unat (delta (rts_extension 41000 \<lparr>lock_bit = False, delta = 0, wts = 1000\<rparr>))
       = 1000 + 40000
   \<and> timestamp_set_get_rts (rts_extension 41000 \<lparr>lock_bit = False, delta = 0, wts = 1000\<rparr>)
       = 1000 + 40000"
proof -
  have le: "ucast (timestamp_set.wts \<lparr>lock_bit = False, delta = 0, wts = 1000\<rparr>)
      \<le> (41000 :: 64 word)"
    by simp
  show ?thesis
    using le rts_extension_reaches_commit_ts [OF le]
    by (simp add: Let_def)
qed

text \<open>
  The claim as stated fails where \<open>v1.wts + shift\<close> leaves the 48-bit field: with the
  zero word of a fresh slot and \<open>commit_ts = 2^48\<close> the extension wraps the new \<open>wts\<close>
  around to 0, the new \<open>delta\<close> is 0, and their sum and the new read timestamp are 0. With
  \<open>v1.wts = 2^48 - 1\<close> and the same \<open>commit_ts\<close> the new fields are \<open>2^48 - 1\<close> and 1, whose
  sum is \<open>commit_ts\<close>, but the read timestamp computed from them is 0.
\<close>

theorem rts_extension_counterexample:
  "ucast (timestamp_set.wts \<lparr>lock_bit = False, delta = 0, wts = 0\<rparr>) \<le> (2 ^ 48 :: 64 word)
   \<and> unat (timestamp_set.wts (rts_extension (2 ^ 48) \<lparr>lock_bit = False, delta = 0, wts = 0\<rparr>))
       + unat (delta (rts_extension (2 ^ 48) \<lparr>lock_bit = False, delta = 0, wts = 0\<rparr>)) = 0
   \<and> unat (2 ^ 48 :: 64 word) \<noteq> 0
   \<and> timestamp_set_get_rts
         (rts_extension (2 ^ 48) \<lparr>lock_bit = False, delta = 0, wts = 0\<rparr>) = 0
   \<and> timestamp_set_get_rts
         (rts_extension (2 ^ 48) \<lparr>lock_bit = False, delta = 0, wts = 0\<rparr>) \<noteq> 2 ^ 48
   \<and> ucast (timestamp_set.wts \<lparr>lock_bit = False, delta = 0, wts = 2 ^ 48 - 1\<rparr>)
       \<le> (2 ^ 48 :: 64 word)
   \<and> rts_extension (2 ^ 48) \<lparr>lock_bit = False, delta = 0, wts = 2 ^ 48 - 1\<rparr>
       = \<lparr>lock_bit = False, delta = 1, wts = 2 ^ 48 - 1\<rparr>
   \<and> timestamp_set_get_rts
         (rts_extension (2 ^ 48) \<lparr>lock_bit = False, delta = 0, wts = 2 ^ 48 - 1\<rparr>) = 0"
  by (simp add: timestamp_set_get_rts_def rts_extension_def)

section \<open>Claim C3\<close>



section \<open>Claim C4\<close>

text \<open>
  Claim C4. If commit returns \<open>-1\<close>, it has made no call into the key-value store: after
  the locking its only events are the unlocks of the write set, in order. Every write
  lock is released by an atomic store that clears the lock bit of the slot as it is at
  that moment and keeps its \<open>wts\<close> and \<open>delta\<close> (\<open>release_step\<close>, after some steps of the other
  threads); with a quiet schedule the words of the write slots differ from those after
  validation in the lock bit only. On either return value the entries are torn down by
  \<open>transaction_deinit\<close>, which changes nothing but the reference counts of the timestamp
  cache: every entry that points to a slot, that is every entry that did so when commit
  was called and every write, releases one reference to the slot of its key, and a key
  whose count drops to zero leaves the cache (in the build that keeps all keys the
  teardown leaves the cache as it is).
\<close>

theorem abort_releases_locks_and_skips_apply:
  assumes "transactional_splinterdb_commit fuel env txn w = Some (Inr run)"
  shows "(commit_rc run = - 1 \<longrightarrow>
            filter is_splinterdb_call (trace (final_world run))
              = filter is_splinterdb_call (trace w)
          \<and> trace (final_world run)
              = trace (after_locking run)
                @ map (\<lambda>i. Unlock (slot_of (rw_entries txn ! i))) (run_write_set run)
          \<and> (\<exists>ns. length ns = length (run_write_set run)
                \<and> before_teardown run
                    = fold release_step
                        (zip (map (\<lambda>i. slot_of (rw_entries txn ! i)) (run_write_set run)) ns)
                        (after_validation run))
          \<and> (sched (after_validation run) = [] \<longrightarrow>
                ts_mem (before_teardown run)
                  = (\<lambda>p. if p \<in> (\<lambda>i. slot_of (rw_entries txn ! i)) ` set (run_write_set run)
                          then (ts_mem (after_validation run) p)\<lparr>lock_bit := False\<rparr>
                          else ts_mem (after_validation run) p)))
       \<and> final_world run = transaction_deinit env (run_entries run) (before_teardown run)
       \<and> final_world run
           = (before_teardown run)
               \<lparr>refcount :=
                  (if EXPERIMENTAL_MODE_KEEP_ALL_KEYS env then refcount (before_teardown run)
                   else (\<lambda>k. released (holders (run_entries run) k)
                                (refcount (before_teardown run) k)))\<rparr>
       \<and> length (run_entries run) = length (rw_entries txn)
       \<and> (\<forall>i<length (rw_entries txn).
             key (run_entries run ! i) = key (rw_entries txn ! i)
             \<and> (tuple_ts (run_entries run ! i) \<noteq> None
                  \<longleftrightarrow> tuple_ts (rw_entries txn ! i) \<noteq> None \<or> i \<in> set (run_write_set run)))
       \<and> (\<forall>p n w0 q.
             timestamp_set.wts (ts_mem (release_step (p, n) w0) q)
                = timestamp_set.wts (ts_mem ((env_step ^^ n) w0) q)
             \<and> delta (ts_mem (release_step (p, n) w0) q) = delta (ts_mem ((env_step ^^ n) w0) q)
             \<and> \<not> lock_bit (ts_mem (release_step (p, n) w0) p)
             \<and> (q \<noteq> p \<longrightarrow> ts_mem (release_step (p, n) w0) q = ts_mem ((env_step ^^ n) w0) q))"
proof -
  from assms obtain c0 w2 where
    lock: "lock_write_set fuel env (run_write_set run) (rw_entries txn) w
       = Some (Inr (run_entries run, after_locking run))"
    and raise: "raise_commit_ts (run_entries run) (run_write_set run) c0 (after_locking run)
       = Inr (run_commit_ts run, run_loaded run, w2)"
    and val: "validate_read_set (run_commit_ts run) (run_entries run) (run_read_set run) w2
       = Inr (run_is_abort run, run_observations run, after_validation run)"
    and fin: "(if \<not> run_is_abort run
      then apply_writes env (run_commit_ts run) (run_entries run) (run_write_set run)
             (after_validation run)
      else unlock_all (run_entries run) (run_write_set run) (after_validation run))
       = Inr (before_teardown run)"
    and final: "final_world run = transaction_deinit env (run_entries run) (before_teardown run)"
    and rc: "commit_rc run = (if run_is_abort run then - 1 else 0)"
    by (rule commit_run_facts)
  have slots: "map (\<lambda>i. slot_of (run_entries run ! i)) (run_write_set run)
      = map (\<lambda>i. slot_of (rw_entries txn ! i)) (run_write_set run)"
    using slot_of_run_entries(1) [OF assms] by simp
  have slots_set: "(\<lambda>i. slot_of (run_entries run ! i)) ` set (run_write_set run)
      = (\<lambda>i. slot_of (rw_entries txn ! i)) ` set (run_write_set run)"
    using slot_of_run_entries(1) [OF assms] by (intro image_cong) simp_all
  have t_val: "trace (after_validation run) = trace (after_locking run)"
    using trace_raise_commit_ts [OF raise] validate_read_set_props [OF val] by simp
  from lock_write_set_props [OF lock] obtain ks where
    t_lock: "trace (after_locking run) = trace w
               @ concat (map (failed_pass_events (rw_entries txn) [] (run_write_set run)) ks)
               @ map (\<lambda>i. Try_lock (slot_of (rw_entries txn ! i)) True) (run_write_set run)"
    by blast
  have no_calls_lock: "filter is_splinterdb_call (trace (after_locking run))
      = filter is_splinterdb_call (trace w)"
    unfolding t_lock
    by (simp add: no_calls_concat_failed_pass is_splinterdb_call_def filter_empty_conv)
  have abort: "filter is_splinterdb_call (trace (final_world run))
              = filter is_splinterdb_call (trace w)
          \<and> trace (final_world run)
              = trace (after_locking run)
                @ map (\<lambda>i. Unlock (slot_of (rw_entries txn ! i))) (run_write_set run)
          \<and> (\<exists>ns. length ns = length (run_write_set run)
                \<and> before_teardown run
                    = fold release_step
                        (zip (map (\<lambda>i. slot_of (rw_entries txn ! i)) (run_write_set run)) ns)
                        (after_validation run))
          \<and> (sched (after_validation run) = [] \<longrightarrow>
                ts_mem (before_teardown run)
                  = (\<lambda>p. if p \<in> (\<lambda>i. slot_of (rw_entries txn ! i)) ` set (run_write_set run)
                          then (ts_mem (after_validation run) p)\<lparr>lock_bit := False\<rparr>
                          else ts_mem (after_validation run) p))"
    if "commit_rc run = - 1"
  proof -
    from that rc have ab: "run_is_abort run" by (simp split: if_splits)
    with fin have u: "unlock_all (run_entries run) (run_write_set run) (after_validation run)
        = Inr (before_teardown run)" by simp
    have t: "trace (final_world run)
              = trace (after_locking run)
                @ map (\<lambda>i. Unlock (slot_of (rw_entries txn ! i))) (run_write_set run)"
      using unlock_all_trace [OF u] slots by (simp add: final trace_transaction_deinit t_val)
    have f: "filter is_splinterdb_call (trace (final_world run))
              = filter is_splinterdb_call (trace w)"
      unfolding t by (simp add: no_calls_lock is_splinterdb_call_def filter_empty_conv)
    have r: "\<exists>ns. length ns = length (run_write_set run)
                \<and> before_teardown run
                    = fold release_step
                        (zip (map (\<lambda>i. slot_of (rw_entries txn ! i)) (run_write_set run)) ns)
                        (after_validation run)"
      using unlock_all_releases [OF u] unfolding slots .
    have q: "sched (after_validation run) = [] \<longrightarrow>
                ts_mem (before_teardown run)
                  = (\<lambda>p. if p \<in> (\<lambda>i. slot_of (rw_entries txn ! i)) ` set (run_write_set run)
                          then (ts_mem (after_validation run) p)\<lparr>lock_bit := False\<rparr>
                          else ts_mem (after_validation run) p)"
      using unlock_all_quiet [OF _ u] unfolding slots_set by blast
    show ?thesis by (intro conjI) (rule f t r q)+
  qed
  have teardown: "final_world run
           = (before_teardown run)
               \<lparr>refcount :=
                  (if EXPERIMENTAL_MODE_KEEP_ALL_KEYS env then refcount (before_teardown run)
                   else (\<lambda>k. released (holders (run_entries run) k)
                                (refcount (before_teardown run) k)))\<rparr>"
  proof (cases "EXPERIMENTAL_MODE_KEEP_ALL_KEYS env")
    case True
    then show ?thesis by (simp add: final transaction_deinit_keep_all_keys)
  next
    case False
    then show ?thesis by (simp add: final transaction_deinit_refcount)
  qed
  note wsf = write_set_facts [OF assms]
  have len: "length (run_entries run) = length (rw_entries txn)"
    using wsf(3) by (simp add: list_all2_lengthD)
  have entries: "\<forall>i<length (rw_entries txn).
             key (run_entries run ! i) = key (rw_entries txn ! i)
             \<and> (tuple_ts (run_entries run ! i) \<noteq> None
                  \<longleftrightarrow> tuple_ts (rw_entries txn ! i) \<noteq> None \<or> i \<in> set (run_write_set run))"
  proof (intro allI impI conjI)
    fix i assume i: "i < length (rw_entries txn)"
    note inst = list_all2_nthD [OF wsf(3) i]
    show "key (run_entries run ! i) = key (rw_entries txn ! i)"
      by (rule entry_installed_fields(1) [OF inst])
    show "tuple_ts (run_entries run ! i) \<noteq> None
                  \<longleftrightarrow> tuple_ts (rw_entries txn ! i) \<noteq> None \<or> i \<in> set (run_write_set run)"
    proof (cases "i \<in> set (run_write_set run)")
      case True
      with raise_commit_ts_tuple_ts [OF raise] show ?thesis by simp
    next
      case False
      with lock_write_set_others [OF lock] show ?thesis by simp
    qed
  qed
  show ?thesis
    using abort final teardown len entries release_step_word by blast
qed

theorem abort_releases_locks_and_skips_apply_witness:
  "\<exists>run. transactional_splinterdb_commit 1 scenario_env scenario_txn changed_world
            = Some (Inr run)
         \<and> commit_rc run = - 1
         \<and> trace (final_world run) = [Try_lock [2, 0] True, Unlock [2, 0]]
         \<and> filter is_splinterdb_call (trace (final_world run))
             = filter is_splinterdb_call (trace changed_world)
         \<and> ts_mem (after_validation run) [2, 0] = \<lparr>lock_bit = True, delta = 0, wts = 9\<rparr>
         \<and> ts_mem (before_teardown run) [2, 0] = \<lparr>lock_bit = False, delta = 0, wts = 9\<rparr>
         \<and> refcount (before_teardown run) [1, 0] = Some 1
         \<and> refcount (before_teardown run) [2, 0] = Some 2
         \<and> holders (run_entries run) [1, 0] = 1
         \<and> holders (run_entries run) [2, 0] = 1
         \<and> refcount (final_world run) [1, 0] = None
         \<and> refcount (final_world run) [2, 0] = Some 1
         \<and> final_world run
             = (before_teardown run)
                 \<lparr>refcount := (\<lambda>k. released (holders (run_entries run) k)
                                     (refcount (before_teardown run) k))\<rparr>"
proof -
  from changed_commit_eval obtain run where
    r: "transactional_splinterdb_commit 1 scenario_env scenario_txn changed_world
          = Some (Inr run)"
    and f: "commit_rc run = - 1"
      "trace (final_world run) = [Try_lock [2, 0] True, Unlock [2, 0]]"
      "ts_mem (after_validation run) [2, 0] = \<lparr>lock_bit = True, delta = 0, wts = 9\<rparr>"
      "ts_mem (before_teardown run) [2, 0] = \<lparr>lock_bit = False, delta = 0, wts = 9\<rparr>"
      "refcount (before_teardown run) [1, 0] = Some 1"
      "refcount (before_teardown run) [2, 0] = Some 2"
      "holders (run_entries run) [1, 0] = 1"
      "holders (run_entries run) [2, 0] = 1"
      "refcount (final_world run) [1, 0] = None"
      "refcount (final_world run) [2, 0] = Some 1"
    by (auto split: option.splits sum.splits)
  have keep: "\<not> EXPERIMENTAL_MODE_KEEP_ALL_KEYS scenario_env" by (simp add: scenario_env_def)
  note th = abort_releases_locks_and_skips_apply [OF r]
  from th f(1)
  have a: "filter is_splinterdb_call (trace (final_world run))
             = filter is_splinterdb_call (trace changed_world)"
    by blast
  from th
  have "final_world run
           = (before_teardown run)
               \<lparr>refcount :=
                  (if EXPERIMENTAL_MODE_KEEP_ALL_KEYS scenario_env
                   then refcount (before_teardown run)
                   else (\<lambda>k. released (holders (run_entries run) k)
                                (refcount (before_teardown run) k)))\<rparr>"
    by blast
  with keep have b: "final_world run
             = (before_teardown run)
                 \<lparr>refcount := (\<lambda>k. released (holders (run_entries run) k)
                                     (refcount (before_teardown run) k))\<rparr>"
    by (simp only: if_False)
  from r f a b show ?thesis by blast
qed

section \<open>Claim C9\<close>




end
